theory Spec2Isabelle
  imports Complex_Main "HOL-Library.Word"
begin

section \<open>Context Health Bar: the scoring and handoff engine of content.js\<close>

text \<open>
  A shallow embedding of the pure core of \<^verbatim>\<open>content.js\<close>: the conversation parser
  (over an already extracted list of message elements), the instruction detector, the
  noise detector, the health scorer and the handoff builder.

  Conventions of the embedding:
  \<^item> JavaScript numbers that hold lengths, token counts and indices are \<open>nat\<close>; a
    difference of two of them is taken in \<open>int\<close>.
  \<^item> Fractional arithmetic is exact (\<open>rat\<close>) where the source computes in IEEE doubles;
    the results of a division, which JavaScript defines for a zero divisor as
    \<open>Infinity\<close>, \<open>-Infinity\<close> or \<open>NaN\<close>, are values of \<open>jsnum\<close>.
  \<^item> Strings are \<open>string\<close> (lists of 8-bit characters); a UTF-16 code unit above 255
    is outside the model.
  \<^item> The module-global \<^verbatim>\<open>state\<close> object is a record passed explicitly.
\<close>

subsection \<open>JavaScript numbers\<close>

datatype jsnum = Fin rat | PosInf | NegInf | NaN

text \<open>\<^verbatim>\<open>a / b\<close> for finite operands (the zero divisor here is always \<open>+0\<close>).\<close>

definition js_div :: "rat \<Rightarrow> rat \<Rightarrow> jsnum" where
  "js_div a b =
     (if b \<noteq> 0 then Fin (a / b)
      else if a > 0 then PosInf
      else if a < 0 then NegInf
      else NaN)"

text \<open>\<^verbatim>\<open>x > c\<close>, \<^verbatim>\<open>x >= c\<close> for a finite constant \<open>c\<close>: every comparison with NaN is false.\<close>

fun js_gt :: "jsnum \<Rightarrow> rat \<Rightarrow> bool" where
  "js_gt (Fin x) c = (x > c)"
| "js_gt PosInf c = True"
| "js_gt NegInf c = False"
| "js_gt NaN c = False"

fun js_ge :: "jsnum \<Rightarrow> rat \<Rightarrow> bool" where
  "js_ge (Fin x) c = (x \<ge> c)"
| "js_ge PosInf c = True"
| "js_ge NegInf c = False"
| "js_ge NaN c = False"

text \<open>\<^verbatim>\<open>x - c\<close> and \<^verbatim>\<open>x * c\<close> for a finite constant \<open>c\<close>.\<close>

fun js_minus :: "jsnum \<Rightarrow> rat \<Rightarrow> jsnum" where
  "js_minus (Fin x) c = Fin (x - c)"
| "js_minus PosInf c = PosInf"
| "js_minus NegInf c = NegInf"
| "js_minus NaN c = NaN"

fun js_times :: "jsnum \<Rightarrow> rat \<Rightarrow> jsnum" where
  "js_times (Fin x) c = Fin (x * c)"
| "js_times PosInf c = (if c > 0 then PosInf else if c < 0 then NegInf else NaN)"
| "js_times NegInf c = (if c > 0 then NegInf else if c < 0 then PosInf else NaN)"
| "js_times NaN c = NaN"

text \<open>\<^verbatim>\<open>c - x\<close> for a finite constant \<open>c\<close>.\<close>

fun js_rminus :: "rat \<Rightarrow> jsnum \<Rightarrow> jsnum" where
  "js_rminus c (Fin x) = Fin (c - x)"
| "js_rminus c PosInf = NegInf"
| "js_rminus c NegInf = PosInf"
| "js_rminus c NaN = NaN"

text \<open>\<^verbatim>\<open>Math.min(c, x)\<close>, \<^verbatim>\<open>Math.max(c, x)\<close> and \<^verbatim>\<open>Math.round(x)\<close>; NaN propagates,
  and \<^verbatim>\<open>Math.round\<close> rounds a half towards plus infinity.\<close>

fun js_min :: "rat \<Rightarrow> jsnum \<Rightarrow> jsnum" where
  "js_min c (Fin x) = Fin (min c x)"
| "js_min c PosInf = Fin c"
| "js_min c NegInf = NegInf"
| "js_min c NaN = NaN"

fun js_max :: "rat \<Rightarrow> jsnum \<Rightarrow> jsnum" where
  "js_max c (Fin x) = Fin (max c x)"
| "js_max c PosInf = PosInf"
| "js_max c NegInf = Fin c"
| "js_max c NaN = NaN"

fun js_round :: "jsnum \<Rightarrow> jsnum" where
  "js_round (Fin x) = Fin (of_int \<lfloor>x + 1 / 2\<rfloor>)"
| "js_round PosInf = PosInf"
| "js_round NegInf = NegInf"
| "js_round NaN = NaN"

subsection \<open>CONFIG\<close>

record point =
  chars :: rat
  penalty :: rat

definition CHARS_PER_TOKEN :: nat where "CHARS_PER_TOKEN = 4"

definition TOKEN_HIGH :: nat where "TOKEN_HIGH = 40000"
definition TOKEN_MEDIUM :: nat where "TOKEN_MEDIUM = 25000"
definition TOKEN_LOW :: nat where "TOKEN_LOW = 15000"

definition CHAR_PENALTY_POINTS :: "point list" where
  "CHAR_PENALTY_POINTS =
     [\<lparr>chars = 0, penalty = 0\<rparr>,
      \<lparr>chars = 120000, penalty = 25\<rparr>,
      \<lparr>chars = 240000, penalty = 50\<rparr>,
      \<lparr>chars = 800000, penalty = 100\<rparr>]"

definition MESSAGE_HIGH :: nat where "MESSAGE_HIGH = 140"
definition MESSAGE_MEDIUM :: nat where "MESSAGE_MEDIUM = 100"
definition MESSAGE_LOW :: nat where "MESSAGE_LOW = 60"

definition LONG_MESSAGE_THRESHOLD :: nat where "LONG_MESSAGE_THRESHOLD = 4000"
definition ASSISTANT_DOMINANCE_RATIO :: rat where "ASSISTANT_DOMINANCE_RATIO = 7 / 10"

definition IMPERATIVE_PHRASES :: "string list" where
  "IMPERATIVE_PHRASES =
     [''you are'', ''act as'', ''always'', ''never'', ''do not'', ''don'' @ [CHR 0x27] @ ''t'',
      ''must'', ''should'', ''follow these'', ''remember to'', ''make sure'']"

definition MIN_IMPERATIVES :: nat where "MIN_IMPERATIVES = 2"
definition EARLY_MESSAGE_COUNT :: nat where "EARLY_MESSAGE_COUNT = 3"

definition HANDOFF_MAX_MESSAGE_CHARS :: nat where "HANDOFF_MAX_MESSAGE_CHARS = 900"
definition HANDOFF_MAX_PINNED :: nat where "HANDOFF_MAX_PINNED = 8"
definition HANDOFF_MAX_RECENT :: nat where "HANDOFF_MAX_RECENT = 12"
definition HANDOFF_MAX_SALIENCE :: nat where "HANDOFF_MAX_SALIENCE = 6"

subsection \<open>interpolatePenalty\<close>

text \<open>
  The \<^verbatim>\<open>for\<close> loop of \<^verbatim>\<open>interpolatePenalty\<close>, from index \<open>i\<close> on: \<open>prev\<close> is
  \<^verbatim>\<open>points[i - 1]\<close> and the list holds \<^verbatim>\<open>points[i..]\<close>. When the loop runs off the
  end, \<open>prev\<close> is the last point and its penalty is returned.
\<close>

fun interpolate_loop :: "point \<Rightarrow> point list \<Rightarrow> rat \<Rightarrow> rat" where
  "interpolate_loop prev [] v = penalty prev"
| "interpolate_loop prev (next # rest) v =
     (if v \<le> chars next then
        (let span = chars next - chars prev in
         if span \<le> 0 then penalty next
         else (let ratio = (v - chars prev) / span in
               penalty prev + ratio * (penalty next - penalty prev)))
      else interpolate_loop next rest v)"

definition interpolatePenalty :: "point list \<Rightarrow> rat \<Rightarrow> rat" where
  "interpolatePenalty points v =
     (case points of
        [] \<Rightarrow> 0
      | p0 # rest \<Rightarrow> if v \<le> chars p0 then penalty p0 else interpolate_loop p0 rest v)"

subsection \<open>Strings\<close>

text \<open>The characters matched by \<^verbatim>\<open>\s\<close> and removed by \<^verbatim>\<open>trim\<close>, below code 256:
  tab, line feed, vertical tab, form feed, carriage return, space, no-break space.\<close>

definition isWhitespace :: "char \<Rightarrow> bool" where
  "isWhitespace c = ((of_char c :: nat) \<in> set [9, 10, 11, 12, 13, 32, 160])"

definition isLineTerminator :: "char \<Rightarrow> bool" where
  "isLineTerminator c = ((of_char c :: nat) \<in> set [10, 13])"

definition isDigit :: "char \<Rightarrow> bool" where
  "isDigit c = (48 \<le> (of_char c :: nat) \<and> (of_char c :: nat) \<le> 57)"

text \<open>The word characters of \<^verbatim>\<open>\b\<close>: letters, digits and the underscore.\<close>

definition isWordChar :: "char \<Rightarrow> bool" where
  "isWordChar c =
     (let n = (of_char c :: nat) in
      (48 \<le> n \<and> n \<le> 57) \<or> (65 \<le> n \<and> n \<le> 90) \<or> n = 95 \<or> (97 \<le> n \<and> n \<le> 122))"

definition toLowerChar :: "char \<Rightarrow> char" where
  "toLowerChar c =
     (let n = (of_char c :: nat) in
      if (65 \<le> n \<and> n \<le> 90) \<or> (192 \<le> n \<and> n \<le> 222 \<and> n \<noteq> 215)
      then char_of (n + 32) else c)"

definition toLowerCase :: "string \<Rightarrow> string" where
  "toLowerCase s = map toLowerChar s"

definition startsWith :: "string \<Rightarrow> string \<Rightarrow> bool" where
  "startsWith s p = (take (length p) s = p)"

text \<open>\<^verbatim>\<open>String.prototype.includes\<close>: the needle occurs at some position.\<close>

fun js_includes :: "string \<Rightarrow> string \<Rightarrow> bool" where
  "js_includes [] needle = (needle = [])"
| "js_includes (c # cs) needle = (startsWith (c # cs) needle \<or> js_includes cs needle)"

definition trim :: "string \<Rightarrow> string" where
  "trim s = rev (dropWhile isWhitespace (rev (dropWhile isWhitespace s)))"

text \<open>\<^verbatim>\<open>Array.prototype.slice(start, fin)\<close>: a negative bound counts from the end.\<close>

definition js_slice :: "'a list \<Rightarrow> int \<Rightarrow> int \<Rightarrow> 'a list" where
  "js_slice xs start fin =
     (let len = int (length xs);
          from = (if start < 0 then max (len + start) 0 else min start len);
          to = (if fin < 0 then max (len + fin) 0 else min fin len)
      in take (nat (to - from)) (drop (nat from) xs))"

text \<open>\<^verbatim>\<open>slice(start)\<close>, with the end left out.\<close>

definition js_slice_from :: "'a list \<Rightarrow> int \<Rightarrow> 'a list" where
  "js_slice_from xs start = js_slice xs start (int (length xs))"

text \<open>Decimal and base-36 rendering of a non-negative integer.\<close>

definition digitChar :: "nat \<Rightarrow> char" where
  "digitChar d = (if d < 10 then char_of (48 + d) else char_of (87 + d))"

function toStringRadix :: "nat \<Rightarrow> nat \<Rightarrow> string" where
  "toStringRadix b n =
     (if b < 2 \<or> n < b then [digitChar n]
      else toStringRadix b (n div b) @ [digitChar (n mod b)])"
  by pat_completeness auto
termination
  by (relation "measure (\<lambda>(b, n). n)") auto

declare toStringRadix.simps [simp del]

definition showNat :: "nat \<Rightarrow> string" where
  "showNat n = toStringRadix 10 n"

definition showInt :: "int \<Rightarrow> string" where
  "showInt i = (if i < 0 then CHR ''-'' # showNat (nat (- i)) else showNat (nat i))"

text \<open>\<^verbatim>\<open>lines.join('\n')\<close>.\<close>

fun joinLines :: "string list \<Rightarrow> string" where
  "joinLines [] = []"
| "joinLines [l] = l"
| "joinLines (l # ls) = l @ [CHR 0x0A] @ joinLines ls"

subsection \<open>Messages and the global state\<close>

datatype role = User | Assistant

definition roleName :: "role \<Rightarrow> string" where
  "roleName r = (case r of User \<Rightarrow> ''user'' | Assistant \<Rightarrow> ''assistant'')"

text \<open>A message object as \<^verbatim>\<open>parseConversation\<close> pushes it; the DOM \<^verbatim>\<open>element\<close>
  reference is left out. \<open>isDraft\<close> is absent (falsy) on every parsed message.\<close>

record message =
  msg_id :: string
  role :: role
  msg_text :: string
  charCount :: nat
  tokens :: nat
  tokenStart :: nat
  tokenEnd :: nat
  isDraft :: bool

datatype tier = Stable | Degrading | Unreliable | Critical

record settings =
  autoLoadHistory :: bool
  handoffRichness :: string

text \<open>The module-global \<^verbatim>\<open>state\<close>. \<open>pinnedMessageIds\<close> is the JavaScript \<^verbatim>\<open>Set\<close> in
  insertion order; timers and DOM handles are left out.\<close>

record state =
  conversationId :: "string option"
  messages :: "message list"
  pinnedMessageIds :: "string list"
  currentHealth :: jsnum
  lastTier :: tier
  handoffApplied :: bool
  autoLoadInProgress :: bool
  autoLoadComplete :: bool
  settings :: "settings option"

definition set_has :: "string list \<Rightarrow> string \<Rightarrow> bool" where
  "set_has s x = (x \<in> set s)"

definition set_add :: "string list \<Rightarrow> string \<Rightarrow> string list" where
  "set_add s x = (if x \<in> set s then s else s @ [x])"

definition set_delete :: "string list \<Rightarrow> string \<Rightarrow> string list" where
  "set_delete s x = removeAll x s"

subsection \<open>Instruction detection\<close>

definition countImperativePhrases :: "string \<Rightarrow> nat" where
  "countImperativePhrases t =
     (let lowerText = toLowerCase t in
      length (filter (\<lambda>phrase. js_includes lowerText phrase) IMPERATIVE_PHRASES))"

text \<open>
  \<^verbatim>\<open>/^[\s]*[-*]\s+/m\<close> and \<^verbatim>\<open>/^[\s]*\d+\.\s+/m\<close> tried at one line start. The run of
  white space (and of digits) must be taken whole, since the character after it is
  matched by a class disjoint from it; a single white-space character satisfies the
  final \<^verbatim>\<open>\s+\<close>.
\<close>

definition bulletAt :: "string \<Rightarrow> bool" where
  "bulletAt s =
     (case dropWhile isWhitespace s of
        c # d # _ \<Rightarrow> (c = CHR ''-'' \<or> c = CHR ''*'') \<and> isWhitespace d
      | _ \<Rightarrow> False)"

definition numberedAt :: "string \<Rightarrow> bool" where
  "numberedAt s =
     (let r = dropWhile isWhitespace s in
      takeWhile isDigit r \<noteq> [] \<and>
      (case dropWhile isDigit r of
         c # d # _ \<Rightarrow> c = CHR ''.'' \<and> isWhitespace d
       | _ \<Rightarrow> False))"

text \<open>With the \<^verbatim>\<open>m\<close> flag, \<^verbatim>\<open>^\<close> matches at the start of the text and after every
  line terminator.\<close>

fun atSomeLineStart :: "(string \<Rightarrow> bool) \<Rightarrow> bool \<Rightarrow> string \<Rightarrow> bool" where
  "atSomeLineStart P lineStart [] = (lineStart \<and> P [])"
| "atSomeLineStart P lineStart (c # cs) =
     ((lineStart \<and> P (c # cs)) \<or> atSomeLineStart P (isLineTerminator c) cs)"

definition hasBulletList :: "string \<Rightarrow> bool" where
  "hasBulletList t = (atSomeLineStart bulletAt True t \<or> atSomeLineStart numberedAt True t)"

text \<open>One iteration of the \<^verbatim>\<open>forEach\<close> of \<^verbatim>\<open>detectInstructions\<close>; the local
  \<^verbatim>\<open>isInstruction\<close> is threaded through its three assignments.\<close>

definition userMessageIndex :: "message list \<Rightarrow> nat \<Rightarrow> nat" where
  "userMessageIndex msgs index =
     length (filter (\<lambda>(i, m). i \<le> index \<and> role m = User) (enumerate 0 msgs))"

definition detectStep :: "state \<Rightarrow> message list \<Rightarrow> nat list \<Rightarrow> nat \<times> message \<Rightarrow> nat list" where
  "detectStep st msgs instructions im =
     (case im of (index, msg) \<Rightarrow>
      if role msg \<noteq> User then instructions
      else if isDraft msg then instructions
      else if set_has (pinnedMessageIds st) (msg_id msg) then instructions @ [index]
      else
        (let imperativeCount = countImperativePhrases (msg_text msg);
             isInstruction1 = (if imperativeCount \<ge> MIN_IMPERATIVES then True else False);
             isInstruction2 =
               (if userMessageIndex msgs index \<le> EARLY_MESSAGE_COUNT
                then (if hasBulletList (msg_text msg) then True else isInstruction1)
                else isInstruction1);
             isInstruction3 =
               (if imperativeCount \<ge> MIN_IMPERATIVES \<and> charCount msg < 800 then True
                else isInstruction2)
         in if isInstruction3 then instructions @ [index] else instructions))"

definition detectInstructions :: "state \<Rightarrow> message list \<Rightarrow> nat list" where
  "detectInstructions st msgs = foldl (detectStep st msgs) [] (enumerate 0 msgs)"

text \<open>The detector with the third check (short and dense) removed, for comparison.\<close>

definition detectStep_without_short_dense ::
  "state \<Rightarrow> message list \<Rightarrow> nat list \<Rightarrow> nat \<times> message \<Rightarrow> nat list" where
  "detectStep_without_short_dense st msgs instructions im =
     (case im of (index, msg) \<Rightarrow>
      if role msg \<noteq> User then instructions
      else if isDraft msg then instructions
      else if set_has (pinnedMessageIds st) (msg_id msg) then instructions @ [index]
      else
        (let imperativeCount = countImperativePhrases (msg_text msg);
             isInstruction1 = (if imperativeCount \<ge> MIN_IMPERATIVES then True else False);
             isInstruction2 =
               (if userMessageIndex msgs index \<le> EARLY_MESSAGE_COUNT
                then (if hasBulletList (msg_text msg) then True else isInstruction1)
                else isInstruction1)
         in if isInstruction2 then instructions @ [index] else instructions))"

definition detectInstructions_without_short_dense :: "state \<Rightarrow> message list \<Rightarrow> nat list" where
  "detectInstructions_without_short_dense st msgs =
     foldl (detectStep_without_short_dense st msgs) [] (enumerate 0 msgs)"

subsection \<open>Noise detection\<close>

text \<open>The \<^verbatim>\<open>forEach\<close> of \<^verbatim>\<open>detectNoise\<close> updates the pair
  (\<^verbatim>\<open>assistantTokens\<close>, \<^verbatim>\<open>longMonologueCount\<close>).\<close>

definition noiseStep :: "nat \<times> nat \<Rightarrow> message \<Rightarrow> nat \<times> nat" where
  "noiseStep acc msg =
     (case acc of (assistantTokens, longMonologueCount) \<Rightarrow>
      if role msg = Assistant then
        (assistantTokens + tokens msg,
         if charCount msg > LONG_MESSAGE_THRESHOLD then longMonologueCount + 1
         else longMonologueCount)
      else (assistantTokens, longMonologueCount))"

definition detectNoise :: "message list \<Rightarrow> nat \<Rightarrow> nat" where
  "detectNoise msgs totalTokens =
     (case foldl noiseStep (0, 0) msgs of (assistantTokens, longMonologueCount) \<Rightarrow>
      (let noisePenalty1 = (if longMonologueCount > 0 then 10 else 0);
           assistantRatio = js_div (of_nat assistantTokens) (of_nat totalTokens)
       in if js_gt assistantRatio ASSISTANT_DOMINANCE_RATIO then noisePenalty1 + 15
          else noisePenalty1))"

subsection \<open>Health calculation\<close>

datatype error = TypeError

text \<open>\<^verbatim>\<open>(x).toFixed(2)\<close> for \<open>x \<ge> 0\<close>: the nearest multiple of 0.01, the larger one on
  a tie, printed with two decimals. (A double that stands for a decimal tie may lie on
  either side of it; the model rounds the exact quotient.)\<close>

definition toFixed2 :: "rat \<Rightarrow> string" where
  "toFixed2 x =
     (let n = nat \<lfloor>x * 100 + 1 / 2\<rfloor> in
      showNat (n div 100) @ ''.'' @ [digitChar ((n mod 100) div 10), digitChar (n mod 10)])"

definition formatCount :: "nat \<Rightarrow> string" where
  "formatCount v =
     (if v \<ge> 1000000 then toFixed2 (of_nat v / 1000000) @ ''M''
      else if v \<ge> 1000 then showNat (nat \<lfloor>(of_nat v :: rat) / 1000 + 1 / 2\<rfloor>) @ ''k''
      else showNat v)"

text \<open>Step 1 of \<^verbatim>\<open>calculateHealth\<close>: the instruction penalty and the reasons it
  pushes. \<^verbatim>\<open>messages[lastInstructionIndex]\<close> is \<^verbatim>\<open>undefined\<close> for an index out of
  range, and reading \<^verbatim>\<open>tokenEnd\<close> of it throws a TypeError.\<close>

definition instructionStep ::
  "message list \<Rightarrow> nat \<Rightarrow> nat list \<Rightarrow> nat \<Rightarrow> bool \<Rightarrow> error + (jsnum \<times> string list)" where
  "instructionStep msgs totalTokens instructionIndices totalChars hasUser =
     (case instructionIndices of
        i0 # rest \<Rightarrow>
          (let lastInstructionIndex = foldl max i0 rest in
           if lastInstructionIndex \<ge> length msgs then Inl TypeError
           else
             (let lastInstructionMsg = msgs ! lastInstructionIndex;
                  lastInstructionPos = tokenEnd lastInstructionMsg;
                  distanceFromEnd = int totalTokens - int lastInstructionPos;
                  distanceRatio = js_div (of_int distanceFromEnd) (of_nat totalTokens);
                  instructionPenalty =
                    (if js_gt distanceRatio (1 / 2)
                     then js_times (js_minus distanceRatio (1 / 2)) 80
                     else Fin 0)
              in Inr (instructionPenalty,
                      if distanceFromEnd > 5000
                      then [''Primary instruction '' @ showInt (distanceFromEnd div 1000)
                              @ ''k tokens back'']
                      else [])))
      | [] \<Rightarrow>
          if hasUser then
            (let maxPenalty = 30;
                 rampChars = 120000;
                 scaledPenalty = (of_nat totalChars / rampChars) * maxPenalty
             in Inr (Fin (min maxPenalty scaledPenalty), [''No core instructions detected'']))
          else Inr (Fin 0, []))"

text \<open>Step 2: the three length penalties, their maximum and the reasons.\<close>

definition tokenPenalty :: "nat \<Rightarrow> rat" where
  "tokenPenalty effectiveTokens =
     (if effectiveTokens > TOKEN_HIGH then 30
      else if effectiveTokens > TOKEN_MEDIUM then 20
      else if effectiveTokens > TOKEN_LOW then 10
      else 0)"

definition charPenalty :: "nat \<Rightarrow> rat" where
  "charPenalty effectiveChars = interpolatePenalty CHAR_PENALTY_POINTS (of_nat effectiveChars)"

definition messagePenalty :: "nat \<Rightarrow> rat" where
  "messagePenalty effectiveMessages =
     (if effectiveMessages > MESSAGE_HIGH then 30
      else if effectiveMessages > MESSAGE_MEDIUM then 20
      else if effectiveMessages > MESSAGE_LOW then 10
      else 0)"

definition lengthPenalty :: "nat \<Rightarrow> nat \<Rightarrow> nat \<Rightarrow> rat" where
  "lengthPenalty totalTokens totalChars messageCount =
     max (max (tokenPenalty totalTokens) (charPenalty totalChars)) (messagePenalty messageCount)"

definition tokenReason :: "nat \<Rightarrow> string" where
  "tokenReason totalTokens = ''Conversation length: '' @ formatCount totalTokens @ '' tokens''"

definition charReason :: "nat \<Rightarrow> string" where
  "charReason totalChars = ''Conversation length: '' @ formatCount totalChars @ '' chars''"

definition messageReason :: "nat \<Rightarrow> string" where
  "messageReason messageCount = ''Conversation length: '' @ showNat messageCount @ '' messages''"

definition lengthReasons :: "nat \<Rightarrow> nat \<Rightarrow> nat \<Rightarrow> string list" where
  "lengthReasons totalTokens totalChars messageCount =
     (let lengthP = lengthPenalty totalTokens totalChars messageCount in
      (if lengthP = tokenPenalty totalTokens \<and> tokenPenalty totalTokens > 0
       then [tokenReason totalTokens] else []) @
      (if lengthP = charPenalty totalChars \<and> charPenalty totalChars > 0
       then [charReason totalChars] else []) @
      (if lengthP = messagePenalty messageCount \<and> messagePenalty messageCount > 0
       then [messageReason messageCount] else []))"

record debug_stats =
  dbg_totalChars :: nat
  dbg_totalTokens :: nat
  dbg_messageCount :: nat

record healthReport =
  health :: jsnum
  tier :: tier
  reasons :: "string list"
  hasUserMessages :: bool
  debugStats :: debug_stats

definition tierOf :: "jsnum \<Rightarrow> tier" where
  "tierOf h =
     (if js_ge h 80 then Stable
      else if js_ge h 50 then Degrading
      else if js_ge h 20 then Unreliable
      else Critical)"

text \<open>\<^verbatim>\<open>Math.ceil(totalChars / CONFIG.CHARS_PER_TOKEN)\<close>.\<close>

definition ceilTokens :: "nat \<Rightarrow> nat" where
  "ceilTokens n = nat \<lceil>(of_nat n :: rat) / of_nat CHARS_PER_TOKEN\<rceil>"

text \<open>\<^verbatim>\<open>totalCharsOverride\<close> may be \<^verbatim>\<open>undefined\<close> (\<open>None\<close>); \<^verbatim>\<open>totalCharsOverride || 0\<close>.
  The tier is chosen from the clamped score before \<^verbatim>\<open>Math.round\<close> is applied to the
  reported health.\<close>

definition calculateHealth ::
  "message list \<Rightarrow> nat \<Rightarrow> nat list \<Rightarrow> nat option \<Rightarrow> error + healthReport" where
  "calculateHealth msgs totalTokens instructionIndices totalCharsOverride =
     (let hasUser = list_ex (\<lambda>msg. role msg = User \<and> \<not> isDraft msg) msgs;
          nonDraftMessages = filter (\<lambda>msg. \<not> isDraft msg) msgs;
          messageCount = length nonDraftMessages;
          totalCharsFromMessages = foldl (\<lambda>sum msg. sum + charCount msg) 0 nonDraftMessages;
          totalChars = max totalCharsFromMessages
                           (case totalCharsOverride of None \<Rightarrow> 0 | Some n \<Rightarrow> n)
      in case instructionStep msgs totalTokens instructionIndices totalChars hasUser of
           Inl e \<Rightarrow> Inl e
         | Inr (instructionPenalty, reasons1) \<Rightarrow>
             (let lengthP = lengthPenalty totalTokens totalChars messageCount;
                  reasons2 = reasons1 @ lengthReasons totalTokens totalChars messageCount;
                  noisePenalty = detectNoise msgs totalTokens;
                  reasons3 = reasons2 @
                    (if noisePenalty > 0 then [''Long assistant responses detected''] else []);
                  h0 = js_minus (js_minus (js_rminus 100 instructionPenalty) lengthP)
                                (of_nat noisePenalty);
                  h = js_max 0 (js_min 100 h0)
              in Inr \<lparr>health = js_round h,
                      tier = tierOf h,
                      reasons = reasons3,
                      hasUserMessages = hasUser,
                      debugStats = \<lparr>dbg_totalChars = totalChars,
                                    dbg_totalTokens = max totalTokens (ceilTokens totalChars),
                                    dbg_messageCount = messageCount\<rparr>\<rparr>))"

subsection \<open>Handoff packet\<close>

text \<open>\<^verbatim>\<open>text.replace(/\s+/g, ' ')\<close>: every maximal run of white space becomes one space.\<close>

function collapseWhitespace :: "string \<Rightarrow> string" where
  "collapseWhitespace [] = []"
| "collapseWhitespace (c # cs) =
     (if isWhitespace c then CHR '' '' # collapseWhitespace (dropWhile isWhitespace cs)
      else c # collapseWhitespace cs)"
  by pat_completeness auto
termination
  by (relation "measure length") (auto simp: length_dropWhile_le less_Suc_eq_le)

definition normalizeText :: "string \<Rightarrow> string" where
  "normalizeText t = trim (collapseWhitespace t)"

definition clipText :: "string \<Rightarrow> nat \<Rightarrow> string" where
  "clipText t maxc =
     (let normalized = normalizeText t in
      if length normalized \<le> maxc then normalized
      else js_slice normalized 0 (int maxc - 3) @ ''...'')"

record limits =
  maxChars :: nat
  maxPinned :: nat
  maxRecent :: nat
  maxSalience :: nat

text \<open>\<^verbatim>\<open>settings?.handoffRichness || 'rich'\<close>: a missing settings object and an empty
  string both give \<^verbatim>\<open>'rich'\<close>.\<close>

definition getHandoffLimits :: "settings option \<Rightarrow> limits" where
  "getHandoffLimits stg =
     (let richness =
            (case stg of
               None \<Rightarrow> ''rich''
             | Some s \<Rightarrow> if handoffRichness s = [] then ''rich'' else handoffRichness s)
      in if richness = ''compact'' then
           \<lparr>maxChars = 400, maxPinned = 5, maxRecent = 6, maxSalience = 3\<rparr>
         else if richness = ''standard'' then
           \<lparr>maxChars = 700, maxPinned = 6, maxRecent = 8, maxSalience = 4\<rparr>
         else
           \<lparr>maxChars = HANDOFF_MAX_MESSAGE_CHARS,
            maxPinned = HANDOFF_MAX_PINNED,
            maxRecent = HANDOFF_MAX_RECENT,
            maxSalience = HANDOFF_MAX_SALIENCE\<rparr>)"

text \<open>
  \<^verbatim>\<open>/\bimportant\b|\bmust\b|\bshould\b|\bremember\b/i\<close>. A word of the alternation
  matches at a position when the character before is not a word character (or there is
  none), the text continues with the word in either case, and the character after is
  not a word character (or there is none).
\<close>

definition wordAt :: "bool \<Rightarrow> string \<Rightarrow> string \<Rightarrow> bool" where
  "wordAt prevIsWord s w =
     (\<not> prevIsWord \<and> startsWith (toLowerCase s) w \<and>
      (case drop (length w) s of [] \<Rightarrow> True | c # _ \<Rightarrow> \<not> isWordChar c))"

fun matchesWord :: "string list \<Rightarrow> bool \<Rightarrow> string \<Rightarrow> bool" where
  "matchesWord ws prevIsWord [] = False"
| "matchesWord ws prevIsWord (c # cs) =
     (list_ex (wordAt prevIsWord (c # cs)) ws \<or> matchesWord ws (isWordChar c) cs)"

definition importancePattern :: "string \<Rightarrow> bool" where
  "importancePattern t = matchesWord [''important'', ''must'', ''should'', ''remember''] False t"

definition codeFence :: string where
  "codeFence = [CHR 0x60, CHR 0x60, CHR 0x60]"

definition scoreSalience :: "message \<Rightarrow> nat" where
  "scoreSalience msg =
     (if role msg = User then 1 else 0) +
     (if hasBulletList (msg_text msg) then 3 else 0) +
     (if countImperativePhrases (msg_text msg) \<ge> MIN_IMPERATIVES then 2 else 0) +
     (if charCount msg > 1200 then 2 else 0) +
     (if js_includes (msg_text msg) codeFence then 2 else 0) +
     (if importancePattern (msg_text msg) then 2 else 0)"

record scored =
  item_msg :: message
  item_score :: nat
  item_index :: nat

text \<open>The comparator handed to \<^verbatim>\<open>scored.sort\<close>: negative when \<open>a\<close> goes first.\<close>

definition salienceCompare :: "scored \<Rightarrow> scored \<Rightarrow> int" where
  "salienceCompare a b =
     (if item_score b \<noteq> item_score a then int (item_score b) - int (item_score a)
      else int (item_index a) - int (item_index b))"

text \<open>\<^verbatim>\<open>Array.prototype.sort\<close> with a comparator, as a stable insertion sort: an element
  stays before the elements that followed it unless the comparator puts it after.\<close>

fun js_insert :: "('a \<Rightarrow> 'a \<Rightarrow> int) \<Rightarrow> 'a \<Rightarrow> 'a list \<Rightarrow> 'a list" where
  "js_insert cmp x [] = [x]"
| "js_insert cmp x (y # ys) = (if cmp x y \<le> 0 then x # y # ys else y # js_insert cmp x ys)"

definition js_sort :: "('a \<Rightarrow> 'a \<Rightarrow> int) \<Rightarrow> 'a list \<Rightarrow> 'a list" where
  "js_sort cmp xs = foldr (js_insert cmp) xs []"

definition salientStep :: "string list \<Rightarrow> scored list \<Rightarrow> nat \<times> message \<Rightarrow> scored list" where
  "salientStep excludeIds acc im =
     (case im of (index, msg) \<Rightarrow>
      if set_has excludeIds (msg_id msg) then acc
      else (let score = scoreSalience msg in
            if score \<le> 0 then acc
            else acc @ [\<lparr>item_msg = msg, item_score = score, item_index = index\<rparr>]))"

text \<open>The sorted and cut list \<^verbatim>\<open>scored.slice(0, maxCount)\<close>, before the final
  \<^verbatim>\<open>map(item => item.msg)\<close>.\<close>

definition getSalientScored :: "message list \<Rightarrow> string list \<Rightarrow> nat \<Rightarrow> scored list" where
  "getSalientScored msgs excludeIds maxCount =
     js_slice (js_sort salienceCompare (foldl (salientStep excludeIds) [] (enumerate 0 msgs)))
              0 (int maxCount)"

definition getSalientMessages :: "message list \<Rightarrow> string list \<Rightarrow> nat \<Rightarrow> message list" where
  "getSalientMessages msgs excludeIds maxCount =
     map item_msg (getSalientScored msgs excludeIds maxCount)"

definition roleLabel :: "role \<Rightarrow> string" where
  "roleLabel r = (if r = User then ''User'' else ''Assistant'')"

text \<open>\<^verbatim>\<open>new Set(ids)\<close>: the ids in order of first occurrence.\<close>

definition set_of_list :: "string list \<Rightarrow> string list" where
  "set_of_list ids = foldl set_add [] ids"

definition buildHandoffPacket :: "state \<Rightarrow> message list \<Rightarrow> string" where
  "buildHandoffPacket st msgs =
     (let fullMessages = filter (\<lambda>msg. \<not> isDraft msg) msgs;
          userMessages = filter (\<lambda>msg. role msg = User) fullMessages;
          pinnedMessages =
            filter (\<lambda>msg. set_has (pinnedMessageIds st) (msg_id msg)) fullMessages;
          lim = getHandoffLimits (settings st);
          recentMessages = js_slice_from fullMessages (- int (maxRecent lim));
          recentIds = set_of_list (map msg_id recentMessages);
          lines0 = [''# Context handoff from previous chat'', []];
          lines1 = lines0 @
            (case userMessages of
               [] \<Rightarrow> []
             | firstUser # _ \<Rightarrow>
                 [''## Original request:'', clipText (msg_text firstUser) (maxChars lim)]);
          lines2 = lines1 @
            (if length pinnedMessages > 0 then
               [[], ''### Pinned instructions:''] @
               map (\<lambda>msg. ''- **User:** '' @ clipText (msg_text msg) (maxChars lim))
                   (js_slice pinnedMessages 0 (int (maxPinned lim)))
             else []);
          salientMessages = getSalientMessages fullMessages recentIds (maxSalience lim);
          lines3 = lines2 @
            (if length salientMessages > 0 then
               [[], ''### Key highlights:''] @
               map (\<lambda>msg. ''- **'' @ roleLabel (role msg) @ '':** ''
                             @ clipText (msg_text msg) (maxChars lim))
                   salientMessages
             else []);
          lines4 = lines3 @
            (case userMessages of
               [] \<Rightarrow> []
             | _ # _ \<Rightarrow>
                 [[], ''### Current focus:'',
                  clipText (msg_text (last userMessages)) (maxChars lim)]);
          lines5 = lines4 @
            (if length recentMessages > 0 then
               [[], ''### Recent exchange:''] @
               map (\<lambda>msg. ''- **'' @ roleLabel (role msg) @ '':** ''
                             @ clipText (msg_text msg) (maxChars lim))
                   recentMessages
             else []);
          lines6 = lines5 @ [[], ''Please continue from this context.'']
      in joinLines lines6)"

subsection \<open>Conversation parser and the main update\<close>

text \<open>
  The DOM is outside the model: \<^verbatim>\<open>parseConversation\<close> takes what its DOM queries
  return, namely the matched message elements (each with its \<^verbatim>\<open>data-testid\<close> and the
  text \<^verbatim>\<open>extractTextContent\<close> gives), the draft input and the visible character count.
\<close>

record element =
  testId :: string
  textContent :: string

text \<open>\<^verbatim>\<open>hashText\<close>: \<^verbatim>\<open>hash |= 0\<close> keeps the low 32 bits after every step, and
  \<^verbatim>\<open>(hash >>> 0).toString(36)\<close> prints them unsigned in base 36.\<close>

definition hashStep :: "32 word \<Rightarrow> char \<Rightarrow> 32 word" where
  "hashStep hash c = (push_bit 5 hash + hash) + of_nat (of_char c)"

definition hashText :: "string \<Rightarrow> string" where
  "hashText t = toStringRadix 36 (unat (foldl hashStep 5381 t))"

record parseAcc =
  acc_messages :: "message list"
  acc_cumulativeTokens :: nat
  acc_messageCounts :: "string \<rightharpoonup> nat"
  acc_migratedLegacyPins :: bool
  acc_totalCharsFromMessages :: nat
  acc_pins :: "string list"

definition parseStep :: "parseAcc \<Rightarrow> nat \<times> element \<Rightarrow> parseAcc" where
  "parseStep acc ie =
     (case ie of (index, el) \<Rightarrow>
      (let r = (if js_includes (testId el) ''user'' then User else Assistant);
           content = textContent el
       in if length (trim content) = 0 then acc
          else
            (let cc = length content;
                 tk = ceilTokens cc;
                 textHash = hashText content;
                 key = roleName r @ '':'' @ textHash;
                 occurrence = (case acc_messageCounts acc key of None \<Rightarrow> 0 | Some n \<Rightarrow> n) + 1;
                 messageId = ''msg_'' @ roleName r @ ''_'' @ textHash @ ''_'' @ showNat occurrence;
                 legacyId = ''msg_'' @ showNat index;
                 migrate = set_has (acc_pins acc) legacyId
             in \<lparr>acc_messages = acc_messages acc @
                    [\<lparr>msg_id = messageId, role = r, msg_text = content, charCount = cc,
                      tokens = tk, tokenStart = acc_cumulativeTokens acc,
                      tokenEnd = acc_cumulativeTokens acc + tk, isDraft = False\<rparr>],
                 acc_cumulativeTokens = acc_cumulativeTokens acc + tk,
                 acc_messageCounts = (acc_messageCounts acc)(key \<mapsto> occurrence),
                 acc_migratedLegacyPins = (if migrate then True else acc_migratedLegacyPins acc),
                 acc_totalCharsFromMessages = acc_totalCharsFromMessages acc + cc,
                 acc_pins = (if migrate then set_add (set_delete (acc_pins acc) legacyId) messageId
                             else acc_pins acc)\<rparr>)))"

record parseResult =
  pr_messages :: "message list"
  pr_totalTokens :: nat
  pr_totalCharsFromMessages :: nat
  pr_visibleChars :: nat
  pr_state :: state
  pr_pinsSaved :: bool

definition parseConversation :: "state \<Rightarrow> element list \<Rightarrow> string \<Rightarrow> nat \<Rightarrow> parseResult" where
  "parseConversation st messageElements draftInput visibleChars =
     (let acc = foldl parseStep
                  \<lparr>acc_messages = [], acc_cumulativeTokens = 0, acc_messageCounts = Map.empty,
                   acc_migratedLegacyPins = False, acc_totalCharsFromMessages = 0,
                   acc_pins = pinnedMessageIds st\<rparr>
                  (enumerate 0 messageElements);
          withDraft = (draftInput \<noteq> [] \<and> length (trim draftInput) > 0);
          draftTokens = ceilTokens (length draftInput)
      in \<lparr>pr_messages =
            (if withDraft then
               acc_messages acc @
               [\<lparr>msg_id = ''draft'', role = User, msg_text = draftInput,
                 charCount = length draftInput, tokens = draftTokens,
                 tokenStart = acc_cumulativeTokens acc,
                 tokenEnd = acc_cumulativeTokens acc + draftTokens, isDraft = True\<rparr>]
             else acc_messages acc),
          pr_totalTokens =
            (if withDraft then acc_cumulativeTokens acc + draftTokens
             else acc_cumulativeTokens acc),
          pr_totalCharsFromMessages = acc_totalCharsFromMessages acc,
          pr_visibleChars = visibleChars,
          pr_state = st\<lparr>pinnedMessageIds := acc_pins acc\<rparr>,
          pr_pinsSaved = acc_migratedLegacyPins acc\<rparr>)"

text \<open>\<^verbatim>\<open>renderHUD\<close> and \<^verbatim>\<open>updateHUD\<close>, as far as the state goes: the tier and the
  health shown are remembered.\<close>

definition renderHUD :: "state \<Rightarrow> healthReport \<Rightarrow> state" where
  "renderHUD st healthData =
     st\<lparr>currentHealth := health healthData,
        lastTier := (if tier healthData \<noteq> lastTier st then tier healthData else lastTier st)\<rparr>"

text \<open>\<^verbatim>\<open>updateHealthBar\<close>: the report handed to \<^verbatim>\<open>renderHUD\<close> and the state after it.
  Pin icons and the pending handoff act on the DOM and the local storage only.\<close>

definition updateHealthBar ::
  "state \<Rightarrow> element list \<Rightarrow> string \<Rightarrow> nat \<Rightarrow> error + (healthReport \<times> state)" where
  "updateHealthBar st messageElements draftInput visibleChars =
     (let pr = parseConversation st messageElements draftInput visibleChars;
          msgs = pr_messages pr;
          totalTokens = pr_totalTokens pr
      in if length msgs = 0 then
           (let totalCharsForPenalty = max (pr_totalCharsFromMessages pr) (pr_visibleChars pr);
                healthData =
                  \<lparr>health = Fin 100, tier = Stable, reasons = [], hasUserMessages = False,
                   debugStats =
                     \<lparr>dbg_totalChars = totalCharsForPenalty,
                      dbg_totalTokens = max totalTokens (ceilTokens totalCharsForPenalty),
                      dbg_messageCount = 0\<rparr>\<rparr>
            in Inr (healthData, renderHUD (pr_state pr) healthData))
         else
           (let st1 = (pr_state pr)\<lparr>messages := msgs\<rparr>;
                instructionIndices = detectInstructions st1 msgs;
                totalCharsForPenalty = max (pr_totalCharsFromMessages pr) (pr_visibleChars pr)
            in case calculateHealth msgs totalTokens instructionIndices (Some totalCharsForPenalty) of
                 Inl e \<Rightarrow> Inl e
               | Inr healthData \<Rightarrow> Inr (healthData, renderHUD st1 healthData)))"

subsection \<open>Example transcripts\<close>

text \<open>A parsed message with the given id, role and text, starting at a token offset.\<close>

definition parsed :: "string \<Rightarrow> role \<Rightarrow> string \<Rightarrow> nat \<Rightarrow> message" where
  "parsed i r t start =
     \<lparr>msg_id = i, role = r, msg_text = t, charCount = length t,
      tokens = ceilTokens (length t), tokenStart = start,
      tokenEnd = start + ceilTokens (length t), isDraft = False\<rparr>"

text \<open>A parsed message of a given size: \<open>cc\<close> characters, \<open>tk\<close> tokens.\<close>

definition sized :: "role \<Rightarrow> nat \<Rightarrow> nat \<Rightarrow> nat \<Rightarrow> message" where
  "sized r cc tk start =
     \<lparr>msg_id = ''msg_'' @ roleName r @ ''_x_1'', role = r, msg_text = replicate cc (CHR ''x''),
      charCount = cc, tokens = tk, tokenStart = start, tokenEnd = start + tk, isDraft = False\<rparr>"

text \<open>A user message of \<open>e\<close> tokens followed by an assistant message that fills the
  conversation up to \<open>T\<close> tokens.\<close>

definition two_turns :: "nat \<Rightarrow> nat \<Rightarrow> message list" where
  "two_turns e T = [sized User (4 * e) e 0, sized Assistant (4 * (T - e)) (T - e) e]"

text \<open>Two global states with the same pins (inserted in a different order) and the same
  handoff limits, which differ everywhere else.\<close>

definition state_a :: state where
  "state_a = \<lparr>conversationId = Some ''c1'', messages = [], pinnedMessageIds = [''p'', ''q''],
     currentHealth = Fin 100, lastTier = Stable, handoffApplied = False,
     autoLoadInProgress = False, autoLoadComplete = False, settings = None\<rparr>"

definition state_b :: state where
  "state_b = \<lparr>conversationId = Some ''c1'', messages = [parsed ''q'' User ''hi'' 0],
     pinnedMessageIds = [''q'', ''p''],
     currentHealth = Fin 42, lastTier = Unreliable, handoffApplied = True,
     autoLoadInProgress = False, autoLoadComplete = True,
     settings = Some \<lparr>autoLoadHistory = False, handoffRichness = ''rich''\<rparr>\<rparr>"

text \<open>A transcript whose fourth user message is pinned, carries no imperative phrase and
  no list.\<close>

definition late_pin_transcript :: "message list" where
  "late_pin_transcript =
     [parsed ''u1'' User ''hello'' 0, parsed ''a1'' Assistant ''hi, how can I help'' 2,
      parsed ''u2'' User ''tell me a story'' 7, parsed ''u3'' User ''a longer one'' 11,
      parsed ''u4'' User ''keep answers short'' 14, parsed ''a2'' Assistant ''ok'' 19]"

definition late_pin_state :: state where
  "late_pin_state = state_a\<lparr>pinnedMessageIds := [''u4'']\<rparr>"

text \<open>A transcript with two messages of equal salience outside the recent window.\<close>

definition highlights_transcript :: "message list" where
  "highlights_transcript =
     [parsed ''a1'' Assistant ''ok'' 0,
      parsed ''u1'' User ''- one'' 1,
      parsed ''u2'' User ''please remember this'' 3,
      parsed ''u3'' User ''- two'' 8,
      parsed ''a2'' Assistant (codeFence @ ''x = 1'' @ codeFence) 10,
      parsed ''u4'' User ''- recent'' 13]"

text \<open>Seventy user messages, 16000 tokens and 64000 characters in all; the last one is
  the instruction.\<close>

definition long_transcript :: "message list" where
  "long_transcript =
     map (\<lambda>i. sized User 912 228 (228 * i)) [0..<69] @ [sized User 1072 268 15732]"

section \<open>Properties\<close>

subsection \<open>Character penalty\<close>

text \<open>
  C4. The character penalty over the fixed control points is exactly 25 at 120000
  characters, exactly 37.5 at 180000 characters (the midpoint of the second segment,
  before any rounding), and exactly 100 for every value above 800000.
\<close>

theorem char_penalty_control_points:
  "interpolatePenalty CHAR_PENALTY_POINTS 120000 = 25 \<and>
   interpolatePenalty CHAR_PENALTY_POINTS 180000 = 75 / 2 \<and>
   (\<forall>v. v > 800000 \<longrightarrow> interpolatePenalty CHAR_PENALTY_POINTS v = 100)"
  by (simp add: interpolatePenalty_def CHAR_PENALTY_POINTS_def)

theorem char_penalty_control_points_witness:
  "interpolatePenalty CHAR_PENALTY_POINTS 120000 = 25 \<and>
   interpolatePenalty CHAR_PENALTY_POINTS 180000 = 75 / 2 \<and>
   (800001 :: rat) > 800000 \<and>
   interpolatePenalty CHAR_PENALTY_POINTS 800001 = 100"
  using char_penalty_control_points by simp

subsection \<open>Example transcripts: field values\<close>

lemma sized_sel:
  "role (sized r cc tk start) = r" "charCount (sized r cc tk start) = cc"
  "tokens (sized r cc tk start) = tk" "tokenEnd (sized r cc tk start) = start + tk"
  "isDraft (sized r cc tk start) = False"
  by (simp_all add: sized_def)

subsection \<open>Instruction detection: the short-and-dense rule\<close>

lemma detectStep_short_dense:
  "detectStep st msgs acc im = detectStep_without_short_dense st msgs acc im"
  by (simp add: detectStep_def detectStep_without_short_dense_def Let_def split: prod.split)

text \<open>
  C10. The third detection rule (imperative count at least \<open>MIN_IMPERATIVES\<close> and fewer
  than 800 characters) is subsumed by the first: the detector returns the same index
  list as the detector without the short-and-dense check, for every state (pin set)
  and message list.
\<close>

theorem short_dense_rule_subsumed:
  "detectInstructions st msgs = detectInstructions_without_short_dense st msgs"
proof -
  have "detectStep st msgs = detectStep_without_short_dense st msgs"
    by (intro ext) (rule detectStep_short_dense)
  then show ?thesis
    by (simp add: detectInstructions_def detectInstructions_without_short_dense_def)
qed

subsection \<open>Handoff packet: determinism\<close>

text \<open>
  C7. Building the handoff packet is deterministic. The builder reads the global state;
  two invocations on the same message list in states that hold the same pin set (in any
  insertion order) and give the same handoff limits produce the same string, whatever
  the rest of the state is.
\<close>

theorem handoff_packet_deterministic:
  assumes "set (pinnedMessageIds s1) = set (pinnedMessageIds s2)"
    and "getHandoffLimits (settings s1) = getHandoffLimits (settings s2)"
  shows "buildHandoffPacket s1 msgs = buildHandoffPacket s2 msgs"
  using assms by (simp add: buildHandoffPacket_def set_has_def)

theorem handoff_packet_deterministic_witness:
  "set (pinnedMessageIds state_a) = set (pinnedMessageIds state_b) \<and>
   getHandoffLimits (settings state_a) = getHandoffLimits (settings state_b) \<and>
   state_a \<noteq> state_b \<and>
   buildHandoffPacket state_a [parsed ''p'' User ''You must always reply in French'' 0,
                               parsed ''r'' Assistant ''Bien'' 8] =
   buildHandoffPacket state_b [parsed ''p'' User ''You must always reply in French'' 0,
                               parsed ''r'' Assistant ''Bien'' 8]"
proof -
  have p: "set (pinnedMessageIds state_a) = set (pinnedMessageIds state_b)"
    by (auto simp: state_a_def state_b_def)
  have l: "getHandoffLimits (settings state_a) = getHandoffLimits (settings state_b)"
    by (simp add: state_a_def state_b_def getHandoffLimits_def)
  have d: "state_a \<noteq> state_b"
    by (simp add: state_a_def state_b_def)
  show ?thesis using p l d handoff_packet_deterministic [OF p l] by simp
qed

subsection \<open>Instruction distance\<close>

lemma foldl_max_Max: "foldl max (i0 :: nat) rest = Max (set (i0 # rest))"
proof -
  have "foldl max i0 rest = fold max rest i0"
    by (induction rest arbitrary: i0) (simp_all add: max.commute)
  also have "\<dots> = Max (set (i0 # rest))"
    by (rule Max.set_eq_fold [symmetric])
  finally show ?thesis .
qed

text \<open>Step 1 with a non-empty index list whose greatest index \<open>k\<close> is in range.\<close>

lemma instructionStep_last:
  assumes "idx \<noteq> []" and k: "k = Max (set idx)" and "k < length msgs"
  shows "instructionStep msgs T idx c hu =
     Inr (if js_gt (js_div (of_int (int T - int (tokenEnd (msgs ! k)))) (of_nat T)) (1 / 2)
          then js_times (js_minus (js_div (of_int (int T - int (tokenEnd (msgs ! k))))
                                          (of_nat T)) (1 / 2)) 80
          else Fin 0,
          if int T - int (tokenEnd (msgs ! k)) > 5000
          then [''Primary instruction '' @
                showInt ((int T - int (tokenEnd (msgs ! k))) div 1000) @ ''k tokens back'']
          else [])"
proof -
  obtain i0 rest where idx: "idx = i0 # rest" using assms(1) by (cases idx) auto
  have m: "foldl max i0 rest = k" unfolding k idx by (rule foldl_max_Max)
  show ?thesis using assms(3)
    by (simp add: instructionStep_def idx m Let_def)
qed

lemma instructionStep_positive:
  assumes "idx \<noteq> []" and "k = Max (set idx)" and "k < length msgs" and "0 < T"
  shows "\<exists>rs. instructionStep msgs T idx c hu =
     Inr (if 2 * (int T - int (tokenEnd (msgs ! k))) > int T
          then Fin ((of_int (int T - int (tokenEnd (msgs ! k))) / of_nat T - 1 / 2) * 80)
          else Fin 0, rs)"
proof -
  have "(of_int (int T - int (tokenEnd (msgs ! k))) / (of_nat T :: rat) > 1 / 2) =
        (2 * (int T - int (tokenEnd (msgs ! k))) > int T)"
  proof -
    have "(of_int (int T - int (tokenEnd (msgs ! k))) / (of_nat T :: rat) > 1 / 2) =
          ((of_int (int T) :: rat) < of_int (2 * (int T - int (tokenEnd (msgs ! k)))))"
      using assms(4) by (simp add: field_simps)
    also have "\<dots> = (2 * (int T - int (tokenEnd (msgs ! k))) > int T)"
      by (simp only: of_int_less_iff)
    finally show ?thesis .
  qed
  then show ?thesis
    using assms(4) by (simp add: instructionStep_last [OF assms(1-3)] js_div_def)
qed

lemma instructionStep_zero_total:
  assumes "idx \<noteq> []" and "k = Max (set idx)" and "k < length msgs"
  shows "\<exists>rs. instructionStep msgs 0 idx c hu = Inr (Fin 0, rs)"
  by (simp add: instructionStep_last [OF assms] js_div_def)

text \<open>
  C2, as the claim states it, fails: with 100 tokens in total and the last instruction
  ending at token 75 (0.75 of the total) the penalty is 0, not 20.
\<close>

theorem instruction_at_three_quarters_counterexample:
  "instructionStep (two_turns 75 100) 100 [0] 400 True = Inr (Fin 0, []) \<and>
   instructionStep (two_turns 75 100) 100 [0] 400 True \<noteq> Inr (Fin 20, [])"
  by (simp add: instructionStep_def two_turns_def sized_sel js_div_def)

text \<open>
  C2, amended. The penalty is measured on the distance from the end of the conversation,
  \<open>T - tokenEnd\<close>, of the last (highest-index) instruction. When that instruction ends
  at exactly half of \<open>T\<close> the penalty is 0. For \<open>T > 0\<close> the penalty is 20 when the
  instruction ends at a quarter of \<open>T\<close> (distance 0.75 T) and 40 when it ends at
  token 0 (distance \<open>T\<close>). An instruction that ends at 0.75 T, or at \<open>T\<close> itself, gets
  penalty 0.
\<close>

theorem instruction_distance_instances:
  assumes "idx \<noteq> []" and "k = Max (set idx)" and "k < length msgs"
  shows "(2 * tokenEnd (msgs ! k) = T \<longrightarrow>
            (\<exists>rs. instructionStep msgs T idx c hu = Inr (Fin 0, rs))) \<and>
         (0 < T \<and> 4 * tokenEnd (msgs ! k) = T \<longrightarrow>
            (\<exists>rs. instructionStep msgs T idx c hu = Inr (Fin 20, rs))) \<and>
         (0 < T \<and> tokenEnd (msgs ! k) = 0 \<longrightarrow>
            (\<exists>rs. instructionStep msgs T idx c hu = Inr (Fin 40, rs))) \<and>
         (4 * tokenEnd (msgs ! k) = 3 * T \<longrightarrow>
            (\<exists>rs. instructionStep msgs T idx c hu = Inr (Fin 0, rs))) \<and>
         (tokenEnd (msgs ! k) = T \<longrightarrow>
            (\<exists>rs. instructionStep msgs T idx c hu = Inr (Fin 0, rs)))"
proof (cases "T = 0")
  case True
  then show ?thesis
    using instructionStep_zero_total [OF assms, of c hu] by simp
next
  case False
  then have pos: "0 < T" by simp
  let ?e = "tokenEnd (msgs ! k)"
  note step = instructionStep_positive [OF assms pos, of c hu]
  have half: "2 * ?e = T \<Longrightarrow> \<exists>rs. instructionStep msgs T idx c hu = Inr (Fin 0, rs)"
    using step by auto
  have three_quarters:
    "4 * ?e = 3 * T \<Longrightarrow> \<exists>rs. instructionStep msgs T idx c hu = Inr (Fin 0, rs)"
    using step pos by auto
  have at_end: "?e = T \<Longrightarrow> \<exists>rs. instructionStep msgs T idx c hu = Inr (Fin 0, rs)"
    using step by auto
  have quarter: "4 * ?e = T \<Longrightarrow> \<exists>rs. instructionStep msgs T idx c hu = Inr (Fin 20, rs)"
  proof -
    assume h: "4 * ?e = T"
    then have e: "0 < ?e" using pos by simp
    have "(of_int (int T - int ?e) / (of_nat T :: rat) - 1 / 2) * 80 = 20"
      using e unfolding h [symmetric] by (simp add: field_simps)
    moreover have "2 * (int T - int ?e) > int T" using e h by simp
    ultimately show ?thesis using step by auto
  qed
  have start: "?e = 0 \<Longrightarrow> \<exists>rs. instructionStep msgs T idx c hu = Inr (Fin 40, rs)"
  proof -
    assume h: "?e = 0"
    have "(of_int (int T - int ?e) / (of_nat T :: rat) - 1 / 2) * 80 = 40"
      using pos by (simp add: h)
    moreover have "2 * (int T - int ?e) > int T" using pos h by simp
    ultimately show ?thesis using step by auto
  qed
  show ?thesis using half three_quarters at_end quarter start by blast
qed

theorem instruction_distance_instances_witness:
  "instructionStep (two_turns 50 100) 100 [0] 400 True = Inr (Fin 0, []) \<and>
   instructionStep (two_turns 25 100) 100 [0] 400 True = Inr (Fin 20, []) \<and>
   instructionStep (two_turns 0 100) 100 [0] 400 True = Inr (Fin 40, []) \<and>
   instructionStep (two_turns 75 100) 100 [0] 400 True = Inr (Fin 0, []) \<and>
   instructionStep (two_turns 100 100) 100 [0] 400 True = Inr (Fin 0, [])"
proof -
  have a: "[0::nat] \<noteq> []" "(0::nat) = Max (set [0])" by simp_all
  have l: "\<And>e. (0::nat) < length (two_turns e 100)" by (simp add: two_turns_def)
  have te: "\<And>e. tokenEnd (two_turns e 100 ! 0) = e" by (simp add: two_turns_def sized_sel)
  have r: "\<And>e p. \<exists>rs. instructionStep (two_turns e 100) 100 [0] 400 True = Inr (p, rs) \<Longrightarrow>
               instructionStep (two_turns e 100) 100 [0] 400 True = Inr (p, [])"
    using l by (auto simp: instructionStep_def te Let_def split: if_splits)
  have "\<exists>rs. instructionStep (two_turns 50 100) 100 [0] 400 True = Inr (Fin 0, rs)"
    using instruction_distance_instances [OF a l [of 50], of 100 400 True] by (simp add: te)
  moreover have "\<exists>rs. instructionStep (two_turns 25 100) 100 [0] 400 True = Inr (Fin 20, rs)"
    using instruction_distance_instances [OF a l [of 25], of 100 400 True] by (simp add: te)
  moreover have "\<exists>rs. instructionStep (two_turns 0 100) 100 [0] 400 True = Inr (Fin 40, rs)"
    using instruction_distance_instances [OF a l [of 0], of 100 400 True] by (simp add: te)
  moreover have "\<exists>rs. instructionStep (two_turns 75 100) 100 [0] 400 True = Inr (Fin 0, rs)"
    using instruction_distance_instances [OF a l [of 75], of 100 400 True] by (simp add: te)
  moreover have "\<exists>rs. instructionStep (two_turns 100 100) 100 [0] 400 True = Inr (Fin 0, rs)"
    using instruction_distance_instances [OF a l [of 100], of 100 400 True] by (simp add: te)
  ultimately show ?thesis using r by blast
qed

subsection \<open>Reported health and tier\<close>

text \<open>
  Whenever \<^verbatim>\<open>calculateHealth\<close> returns, the reported health is an integer between 0 and
  100: it is \<^verbatim>\<open>Math.round\<close> of a clamped score \<open>x\<close>, and the tier is the band of \<open>x\<close>
  itself. The band of \<open>x\<close> agrees with the band of the rounded value except when the
  rounded value is 80, 50 or 20 and \<open>x\<close> lies just below it.
\<close>

lemma instructionStep_penalty_shape:
  assumes "instructionStep msgs T idx c hu = Inr (ip, rs)"
  shows "ip = PosInf \<or> (\<exists>x. ip = Fin x)"
proof (cases idx)
  case Nil
  with assms show ?thesis
    by (auto simp: instructionStep_def Let_def split: if_splits)
next
  case (Cons i0 rest)
  let ?ratio = "js_div (of_int (int T - int (tokenEnd (msgs ! foldl max i0 rest)))) (of_nat T)"
  from assms Cons have "ip = (if js_gt ?ratio (1 / 2) then js_times (js_minus ?ratio (1 / 2)) 80
                             else Fin 0)"
    by (auto simp: instructionStep_def Let_def split: if_splits)
  then show ?thesis
    by (cases ?ratio) (auto split: if_splits)
qed

lemma clamp_range:
  assumes "ip = PosInf \<or> (\<exists>x. ip = Fin x)"
  shows "\<exists>x. js_max 0 (js_min 100 (js_minus (js_minus (js_rminus 100 ip) lp) np)) = Fin x \<and>
             0 \<le> x \<and> x \<le> 100"
  using assms by auto

lemma calculateHealth_range:
  assumes "calculateHealth msgs T idx ov = Inr r"
  shows "\<exists>x. 0 \<le> x \<and> x \<le> 100 \<and> tier r = tierOf (Fin x) \<and>
             health r = Fin (of_int \<lfloor>x + 1 / 2\<rfloor>) \<and>
             0 \<le> \<lfloor>x + 1 / 2\<rfloor> \<and> \<lfloor>x + 1 / 2\<rfloor> \<le> 100"
proof -
  let ?n = "length (filter (\<lambda>msg. \<not> isDraft msg) msgs)"
  let ?c = "max (foldl (\<lambda>sum msg. sum + charCount msg) 0 (filter (\<lambda>msg. \<not> isDraft msg) msgs))
                (case ov of None \<Rightarrow> 0 | Some v \<Rightarrow> v)"
  let ?hu = "list_ex (\<lambda>msg. role msg = User \<and> \<not> isDraft msg) msgs"
  from assms obtain ip rs where
    step: "instructionStep msgs T idx ?c ?hu = Inr (ip, rs)"
    and h: "health r = js_round (js_max 0 (js_min 100
              (js_minus (js_minus (js_rminus 100 ip) (lengthPenalty T ?c ?n))
                        (of_nat (detectNoise msgs T)))))"
    and t: "tier r = tierOf (js_max 0 (js_min 100
              (js_minus (js_minus (js_rminus 100 ip) (lengthPenalty T ?c ?n))
                        (of_nat (detectNoise msgs T)))))"
    by (auto simp: calculateHealth_def Let_def split: sum.splits prod.splits)
  from clamp_range [OF instructionStep_penalty_shape [OF step]]
  obtain x where x: "js_max 0 (js_min 100
              (js_minus (js_minus (js_rminus 100 ip) (lengthPenalty T ?c ?n))
                        (of_nat (detectNoise msgs T)))) = Fin x"
    and lo: "0 \<le> x" and hi: "x \<le> 100"
    by blast
  have "0 \<le> \<lfloor>x + 1 / 2\<rfloor>" using lo by (simp add: le_floor_iff)
  moreover have "\<lfloor>x + 1 / 2\<rfloor> \<le> 100" using hi by (simp add: floor_le_iff)
  ultimately show ?thesis
    using h t x lo hi by auto
qed

lemma tier_of_rounded_score:
  fixes x :: rat
  assumes "0 \<le> x" and "x \<le> 100" and n: "n = \<lfloor>x + 1 / 2\<rfloor>"
  shows "(81 \<le> n \<longrightarrow> tierOf (Fin x) = Stable) \<and>
         (n = 80 \<longrightarrow> tierOf (Fin x) = (if 80 \<le> x then Stable else Degrading)) \<and>
         (51 \<le> n \<and> n \<le> 79 \<longrightarrow> tierOf (Fin x) = Degrading) \<and>
         (n = 50 \<longrightarrow> tierOf (Fin x) = (if 50 \<le> x then Degrading else Unreliable)) \<and>
         (21 \<le> n \<and> n \<le> 49 \<longrightarrow> tierOf (Fin x) = Unreliable) \<and>
         (n = 20 \<longrightarrow> tierOf (Fin x) = (if 20 \<le> x then Unreliable else Critical)) \<and>
         (n \<le> 19 \<longrightarrow> tierOf (Fin x) = Critical)"
proof -
  have lo: "of_int n \<le> x + 1 / 2" and hi: "x + 1 / 2 < of_int n + 1"
    unfolding n by linarith+
  have a: "81 \<le> n \<Longrightarrow> 80 \<le> x"
  proof -
    assume "81 \<le> n"
    then have "(81 :: rat) \<le> of_int n" by (metis of_int_le_iff of_int_numeral)
    with lo show ?thesis by linarith
  qed
  have b: "n \<le> 79 \<Longrightarrow> x < 80"
  proof -
    assume "n \<le> 79"
    then have "of_int n \<le> (79 :: rat)" by (metis of_int_le_iff of_int_numeral)
    with hi show ?thesis by linarith
  qed
  have c: "51 \<le> n \<Longrightarrow> 50 \<le> x"
  proof -
    assume "51 \<le> n"
    then have "(51 :: rat) \<le> of_int n" by (metis of_int_le_iff of_int_numeral)
    with lo show ?thesis by linarith
  qed
  have d: "n \<le> 49 \<Longrightarrow> x < 50"
  proof -
    assume "n \<le> 49"
    then have "of_int n \<le> (49 :: rat)" by (metis of_int_le_iff of_int_numeral)
    with hi show ?thesis by linarith
  qed
  have e: "21 \<le> n \<Longrightarrow> 20 \<le> x"
  proof -
    assume "21 \<le> n"
    then have "(21 :: rat) \<le> of_int n" by (metis of_int_le_iff of_int_numeral)
    with lo show ?thesis by linarith
  qed
  have f: "n \<le> 19 \<Longrightarrow> x < 20"
  proof -
    assume "n \<le> 19"
    then have "of_int n \<le> (19 :: rat)" by (metis of_int_le_iff of_int_numeral)
    with hi show ?thesis by linarith
  qed
  show ?thesis
    using a b c d e f by (auto simp: tierOf_def)
qed

lemma example_80_parts:
  "instructionStep [sized User 97200 24300 0] 24300 [0] 97200 True = Inr (Fin 0, [])"
  "lengthPenalty 24300 97200 (Suc 0) = 81 / 4"
  "detectNoise [sized User 97200 24300 0] 24300 = 0"
    apply (simp add: instructionStep_def sized_sel js_div_def)
   apply (simp add: lengthPenalty_def tokenPenalty_def charPenalty_def messagePenalty_def
      interpolatePenalty_def CHAR_PENALTY_POINTS_def
      TOKEN_HIGH_def TOKEN_MEDIUM_def TOKEN_LOW_def MESSAGE_HIGH_def MESSAGE_MEDIUM_def
      MESSAGE_LOW_def)
  apply (simp add: detectNoise_def noiseStep_def sized_sel js_div_def
      LONG_MESSAGE_THRESHOLD_def ASSISTANT_DOMINANCE_RATIO_def)
  done

text \<open>
  C1 at a concrete transcript: a single user message of 97200 characters (24300 tokens)
  that is itself the instruction, with 97200 visible characters. The length penalty is 20.25, the score before rounding
  is 79.75, so the tier is chosen as degrading while the reported health is
  \<^verbatim>\<open>Math.round(79.75) = 80\<close>.
\<close>

theorem rounded_health_80_degrading:
  "\<exists>r. calculateHealth [sized User 97200 24300 0] 24300 [0] (Some 97200) = Inr r \<and>
       health r = Fin 80 \<and> tier r = Degrading"
  by (simp add: calculateHealth_def Let_def sized_sel example_80_parts tierOf_def floor_eq_iff)

subsection \<open>Loops that append per element\<close>

lemma concat_enumerate_member:
  assumes key: "\<And>j m. g ` set (f (j, m)) \<subseteq> {j}"
  shows "y \<in> set (concat (map f (enumerate n xs))) \<longleftrightarrow>
         n \<le> g y \<and> g y < n + length xs \<and> y \<in> set (f (g y, xs ! (g y - n)))"
proof
  assume "y \<in> set (concat (map f (enumerate n xs)))"
  then obtain j m where jm: "(j, m) \<in> set (enumerate n xs)" and y: "y \<in> set (f (j, m))"
    by auto
  from y key [of j m] have "g y = j" by auto
  with jm y show "n \<le> g y \<and> g y < n + length xs \<and> y \<in> set (f (g y, xs ! (g y - n)))"
    by (auto simp: in_set_enumerate_eq)
next
  assume a: "n \<le> g y \<and> g y < n + length xs \<and> y \<in> set (f (g y, xs ! (g y - n)))"
  then have "(g y, xs ! (g y - n)) \<in> set (enumerate n xs)"
    by (auto simp: in_set_enumerate_eq)
  with a show "y \<in> set (concat (map f (enumerate n xs)))"
    by (auto intro!: bexI [of _ "(g y, xs ! (g y - n))"])
qed

lemma concat_enumerate_sorted:
  assumes key: "\<And>j m. g ` set (f (j, m)) \<subseteq> {j}"
    and one: "\<And>j m. sorted_wrt (\<lambda>a b. g a < g b) (f (j, m))"
  shows "sorted_wrt (\<lambda>a b. (g a :: nat) < g b) (concat (map f (enumerate n xs)))"
proof (induction xs arbitrary: n)
  case Nil
  show ?case by simp
next
  case (Cons x xs)
  let ?rest = "concat (map f (enumerate (Suc n) xs))"
  have split: "concat (map f (enumerate n (x # xs))) = f (n, x) @ ?rest" by simp
  have cross: "\<forall>a \<in> set (f (n, x)). \<forall>b \<in> set ?rest. g a < g b"
  proof (intro ballI)
    fix a b
    assume "a \<in> set (f (n, x))" and b: "b \<in> set ?rest"
    then have "g a = n" using key [of n x] by auto
    moreover have "Suc n \<le> g b"
      using b concat_enumerate_member [of g f b "Suc n" xs, OF key] by simp
    ultimately show "g a < g b" by simp
  qed
  show ?case
    unfolding split sorted_wrt_append using one [of n x] Cons.IH [of "Suc n"] cross by blast
qed

lemma foldl_append_step:
  assumes "\<And>acc im. step acc im = acc @ step [] im"
  shows "foldl step acc ims = acc @ concat (map (step []) ims)"
proof (induction ims arbitrary: acc)
  case Nil
  show ?case by simp
next
  case (Cons im ims)
  have "foldl step acc (im # ims) = foldl step (acc @ step [] im) ims"
    using assms [of acc im] by simp
  then show ?case by (simp add: Cons.IH)
qed

subsection \<open>Instruction detection: pins\<close>

lemma detectStep_append:
  "detectStep st msgs acc im = acc @ detectStep st msgs [] im"
  by (simp add: detectStep_def Let_def split: prod.split)

lemma detectStep_key:
  "(\<lambda>i. i) ` set (detectStep st msgs [] (i, m)) \<subseteq> {i}"
  by (simp add: detectStep_def Let_def)

lemma detectStep_sorted:
  "sorted_wrt (\<lambda>a b. a < b) (detectStep st msgs [] (i, m))"
  by (simp add: detectStep_def Let_def)

lemma detectStep_pinned:
  "role m = User \<Longrightarrow> \<not> isDraft m \<Longrightarrow> msg_id m \<in> set (pinnedMessageIds st) \<Longrightarrow>
   detectStep st msgs [] (i, m) = [i]"
  by (simp add: detectStep_def set_has_def)

lemma detectStep_only_users:
  "j \<in> set (detectStep st msgs [] (i, m)) \<Longrightarrow> role m = User \<and> \<not> isDraft m"
  by (auto simp: detectStep_def Let_def split: if_splits)

lemma detectInstructions_concat:
  "detectInstructions st msgs = concat (map (detectStep st msgs []) (enumerate 0 msgs))"
  unfolding detectInstructions_def
  using foldl_append_step [of "detectStep st msgs" "[]", OF detectStep_append] by simp

lemma detectInstructions_member:
  "i \<in> set (detectInstructions st msgs) \<longleftrightarrow>
   i < length msgs \<and> i \<in> set (detectStep st msgs [] (i, msgs ! i))"
  unfolding detectInstructions_concat
  using concat_enumerate_member [of "\<lambda>i. i" "detectStep st msgs []" i 0 msgs, OF detectStep_key]
  by simp

text \<open>
  C6. A non-draft user message whose id is in the pin set is always among the detected
  instructions, whatever its text and its rank among the user messages; every detected
  index is that of a non-draft user message; and the indices come in transcript order
  (strictly ascending).
\<close>

theorem pinned_always_detected:
  "(\<forall>i. i < length msgs \<and> role (msgs ! i) = User \<and> \<not> isDraft (msgs ! i) \<and>
        msg_id (msgs ! i) \<in> set (pinnedMessageIds st)
        \<longrightarrow> i \<in> set (detectInstructions st msgs)) \<and>
   (\<forall>i \<in> set (detectInstructions st msgs).
        i < length msgs \<and> role (msgs ! i) = User \<and> \<not> isDraft (msgs ! i)) \<and>
   sorted_wrt (<) (detectInstructions st msgs)"
proof -
  have pinned: "\<forall>i. i < length msgs \<and> role (msgs ! i) = User \<and> \<not> isDraft (msgs ! i) \<and>
        msg_id (msgs ! i) \<in> set (pinnedMessageIds st)
        \<longrightarrow> i \<in> set (detectInstructions st msgs)"
    by (simp add: detectInstructions_member detectStep_pinned)
  have only: "\<forall>i \<in> set (detectInstructions st msgs).
        i < length msgs \<and> role (msgs ! i) = User \<and> \<not> isDraft (msgs ! i)"
  proof
    fix i
    assume "i \<in> set (detectInstructions st msgs)"
    then have "i < length msgs" and "i \<in> set (detectStep st msgs [] (i, msgs ! i))"
      by (simp_all add: detectInstructions_member)
    then show "i < length msgs \<and> role (msgs ! i) = User \<and> \<not> isDraft (msgs ! i)"
      using detectStep_only_users by blast
  qed
  have ordered: "sorted_wrt (<) (detectInstructions st msgs)"
    unfolding detectInstructions_concat
    using concat_enumerate_sorted [of "\<lambda>i. i" "detectStep st msgs []" 0 msgs,
        OF detectStep_key detectStep_sorted]
    by simp
  show ?thesis using pinned only ordered by blast
qed

theorem pinned_always_detected_witness:
  "4 < length late_pin_transcript \<and>
   role (late_pin_transcript ! 4) = User \<and>
   \<not> isDraft (late_pin_transcript ! 4) \<and>
   msg_id (late_pin_transcript ! 4) \<in> set (pinnedMessageIds late_pin_state) \<and>
   countImperativePhrases (msg_text (late_pin_transcript ! 4)) = 0 \<and>
   \<not> hasBulletList (msg_text (late_pin_transcript ! 4)) \<and>
   userMessageIndex late_pin_transcript 4 = 4 \<and>
   4 \<in> set (detectInstructions late_pin_state late_pin_transcript) \<and>
   sorted_wrt (<) (detectInstructions late_pin_state late_pin_transcript)"
proof -
  have facts:
    "4 < length late_pin_transcript"
    "role (late_pin_transcript ! 4) = User"
    "\<not> isDraft (late_pin_transcript ! 4)"
    "msg_id (late_pin_transcript ! 4) \<in> set (pinnedMessageIds late_pin_state)"
    "countImperativePhrases (msg_text (late_pin_transcript ! 4)) = 0"
    "\<not> hasBulletList (msg_text (late_pin_transcript ! 4))"
    "userMessageIndex late_pin_transcript 4 = 4"
    by code_simp+
  show ?thesis
    using facts pinned_always_detected [of late_pin_transcript late_pin_state] by blast
qed

subsection \<open>Salience selection\<close>

lemma set_js_insert: "set (js_insert cmp x xs) = insert x (set xs)"
  by (induction xs) auto

lemma length_js_insert: "length (js_insert cmp x xs) = Suc (length xs)"
  by (induction xs) auto

lemma set_js_sort: "set (js_sort cmp xs) = set xs"
  by (induction xs) (simp_all add: js_sort_def set_js_insert)

lemma length_js_sort: "length (js_sort cmp xs) = length xs"
  by (induction xs) (simp_all add: js_sort_def length_js_insert)

lemma distinct_map_js_insert:
  "distinct (map g (js_insert cmp x xs)) \<longleftrightarrow> g x \<notin> g ` set xs \<and> distinct (map g xs)"
  by (induction xs) (auto simp: set_js_insert)

lemma distinct_map_js_sort:
  "distinct (map g (js_sort cmp xs)) \<longleftrightarrow> distinct (map g xs)"
  by (induction xs) (simp_all add: js_sort_def distinct_map_js_insert set_js_sort [unfolded js_sort_def])

text \<open>A comparator that is total and transitive is respected by the sort.\<close>

lemma sorted_js_insert:
  assumes total: "\<And>a b. cmp a b \<le> 0 \<or> cmp b a \<le> 0"
    and trans: "\<And>a b c. cmp a b \<le> 0 \<Longrightarrow> cmp b c \<le> 0 \<Longrightarrow> cmp a c \<le> 0"
  shows "sorted_wrt (\<lambda>a b. cmp a b \<le> 0) xs \<Longrightarrow>
         sorted_wrt (\<lambda>a b. cmp a b \<le> 0) (js_insert cmp x xs)"
proof (induction xs)
  case Nil
  show ?case by simp
next
  case (Cons y ys)
  show ?case
  proof (cases "cmp x y \<le> 0")
    case True
    then have "\<forall>z \<in> set (y # ys). cmp x z \<le> 0"
      using Cons.prems trans by auto
    with True Cons.prems show ?thesis by simp
  next
    case False
    then have "cmp y x \<le> 0" using total [of x y] by simp
    with False Cons show ?thesis by (auto simp: set_js_insert)
  qed
qed

lemma sorted_js_sort:
  assumes total: "\<And>a b. cmp a b \<le> 0 \<or> cmp b a \<le> 0"
    and trans: "\<And>a b c. cmp a b \<le> 0 \<Longrightarrow> cmp b c \<le> 0 \<Longrightarrow> cmp a c \<le> 0"
  shows "sorted_wrt (\<lambda>a b. cmp a b \<le> 0) (js_sort cmp xs)"
proof (induction xs)
  case Nil
  show ?case by (simp add: js_sort_def)
next
  case (Cons x xs)
  then show ?case
    using sorted_js_insert [of cmp "js_sort cmp xs" x, OF total trans]
    by (simp add: js_sort_def)
qed

lemma salienceCompare_le:
  "salienceCompare a b \<le> 0 \<longleftrightarrow>
   item_score b < item_score a \<or> (item_score a = item_score b \<and> item_index a \<le> item_index b)"
  by (auto simp: salienceCompare_def)

lemma js_slice_take: "js_slice xs 0 (int n) = take n xs"
  by (simp add: js_slice_def Let_def min_def)

lemma salientStep_append:
  "salientStep ex acc im = acc @ salientStep ex [] im"
  by (simp add: salientStep_def Let_def split: prod.split)

lemma salientStep_key:
  "item_index ` set (salientStep ex [] (i, m)) \<subseteq> {i}"
  by (simp add: salientStep_def Let_def)

lemma salientStep_sorted:
  "sorted_wrt (\<lambda>a b. item_index a < item_index b) (salientStep ex [] (i, m))"
  by (simp add: salientStep_def Let_def)

lemma salientStep_member:
  "it \<in> set (salientStep ex [] (i, m)) \<longleftrightarrow>
   msg_id m \<notin> set ex \<and> 0 < scoreSalience m \<and>
   item_msg it = m \<and> item_score it = scoreSalience m \<and> item_index it = i"
  by (cases it) (auto simp: salientStep_def set_has_def Let_def)

lemma candidates_concat:
  "foldl (salientStep ex) [] (enumerate 0 msgs) =
   concat (map (salientStep ex []) (enumerate 0 msgs))"
  using foldl_append_step [of "salientStep ex" "[]", OF salientStep_append] by simp

lemma candidates_member:
  "it \<in> set (foldl (salientStep ex) [] (enumerate 0 msgs)) \<longleftrightarrow>
   item_index it < length msgs \<and> msg_id (msgs ! item_index it) \<notin> set ex \<and>
   0 < scoreSalience (msgs ! item_index it) \<and>
   item_msg it = msgs ! item_index it \<and>
   item_score it = scoreSalience (msgs ! item_index it)"
  unfolding candidates_concat
  using concat_enumerate_member [of item_index "salientStep ex []" it 0 msgs, OF salientStep_key]
  by (simp add: salientStep_member)

lemma candidates_distinct:
  "distinct (map item_index (foldl (salientStep ex) [] (enumerate 0 msgs)))"
proof -
  have "sorted_wrt (\<lambda>a b. item_index a < item_index b)
          (foldl (salientStep ex) [] (enumerate 0 msgs))"
    unfolding candidates_concat
    by (rule concat_enumerate_sorted [OF salientStep_key salientStep_sorted])
  then have "sorted_wrt (<) (map item_index (foldl (salientStep ex) [] (enumerate 0 msgs)))"
    by (simp add: sorted_wrt_map)
  then show ?thesis by (simp add: strict_sorted_iff)
qed

lemma sorted_wrt_unique:
  assumes antisym: "\<And>a b. a \<in> A \<Longrightarrow> b \<in> A \<Longrightarrow> R a b \<Longrightarrow> R b a \<Longrightarrow> a = b"
  shows "set ys \<subseteq> A \<Longrightarrow> sorted_wrt R ys \<Longrightarrow> distinct ys \<Longrightarrow>
         sorted_wrt R zs \<Longrightarrow> distinct zs \<Longrightarrow> set ys = set zs \<Longrightarrow> ys = zs"
proof (induction ys arbitrary: zs)
  case Nil
  then show ?case by simp
next
  case (Cons y ys)
  then obtain z zs' where zs: "zs = z # zs'" by (cases zs) auto
  have "y = z"
  proof (rule ccontr)
    assume ne: "y \<noteq> z"
    then have "y \<in> set zs'" using Cons.prems(6) zs by auto
    then have "R z y" using Cons.prems(4) zs by simp
    moreover have "z \<in> set ys" using ne Cons.prems(6) zs by auto
    then have "R y z" using Cons.prems(2) by simp
    moreover have "y \<in> A" "z \<in> A" using Cons.prems(1,6) zs by auto
    ultimately show False using antisym ne by blast
  qed
  moreover have "set ys = set zs'"
    using Cons.prems(3,5,6) zs \<open>y = z\<close> by auto
  ultimately show ?case
    using Cons.IH [of zs'] Cons.prems zs by simp
qed

text \<open>The comparator orders items with distinct indices strictly, so a sorted arrangement of
  the candidates is unique: any other sorting algorithm returns the list \<open>js_sort\<close> returns.\<close>

lemma salience_sort_unique:
  assumes d: "distinct (map item_index xs)"
    and s: "set ys = set xs" and dy: "distinct ys"
    and sorted: "sorted_wrt (\<lambda>a b. salienceCompare a b \<le> 0) ys"
  shows "ys = js_sort salienceCompare xs"
proof (rule sorted_wrt_unique [where A = "set xs" and R = "\<lambda>a b. salienceCompare a b \<le> 0"])
  fix a b
  assume "a \<in> set xs" and "b \<in> set xs"
    and "salienceCompare a b \<le> 0" and "salienceCompare b a \<le> 0"
  then have "item_index a = item_index b" by (auto simp: salienceCompare_le)
  with d \<open>a \<in> set xs\<close> \<open>b \<in> set xs\<close> show "a = b"
    by (meson distinct_map inj_onD)
next
  show "set ys \<subseteq> set xs" using s by simp
  show "sorted_wrt (\<lambda>a b. salienceCompare a b \<le> 0) ys" by (rule sorted)
  show "distinct ys" by (rule dy)
  show "sorted_wrt (\<lambda>a b. salienceCompare a b \<le> 0) (js_sort salienceCompare xs)"
    by (rule sorted_js_sort) (auto simp: salienceCompare_le)
  show "distinct (js_sort salienceCompare xs)"
    using d by (metis distinct_map_js_sort distinct_map)
  show "set ys = set (js_sort salienceCompare xs)" using s by (simp add: set_js_sort)
qed

lemma set_of_list_set: "set (foldl set_add acc ids) = set acc \<union> set ids"
  by (induction ids arbitrary: acc) (auto simp: set_add_def)

lemma getSalientScored_take:
  "getSalientScored msgs ex n =
   take n (js_sort salienceCompare (foldl (salientStep ex) [] (enumerate 0 msgs)))"
  by (simp add: getSalientScored_def js_slice_take)

lemma getSalientScored_candidates:
  assumes "it \<in> set (getSalientScored msgs ex n)"
  shows "item_index it < length msgs \<and> item_msg it = msgs ! item_index it \<and>
      msg_id (item_msg it) \<notin> set ex \<and>
      item_score it = scoreSalience (item_msg it) \<and> 0 < item_score it"
proof -
  have "it \<in> set (js_sort salienceCompare (foldl (salientStep ex) [] (enumerate 0 msgs)))"
    using assms unfolding getSalientScored_take by (rule in_set_takeD)
  then have "it \<in> set (foldl (salientStep ex) [] (enumerate 0 msgs))"
    by (simp only: set_js_sort)
  then show ?thesis by (simp add: candidates_member)
qed

text \<open>
  C8. The salience selection. Every selected item is a message of the list, at its own
  index, whose id is not excluded and whose score is positive; the items are ordered by
  score descending, and two items of equal score are in ascending transcript position;
  at most \<open>maxCount\<close> are selected. When the excluded ids are those of the recent window,
  as in \<^verbatim>\<open>buildHandoffPacket\<close>, no selected message is in the window.
\<close>

theorem salience_selection:
  "(\<forall>it \<in> set (getSalientScored msgs ex n).
      item_index it < length msgs \<and> item_msg it = msgs ! item_index it \<and>
      msg_id (item_msg it) \<notin> set ex \<and>
      item_score it = scoreSalience (item_msg it) \<and> 0 < item_score it) \<and>
   (\<forall>i j. i < j \<and> j < length (getSalientScored msgs ex n) \<longrightarrow>
      item_score (getSalientScored msgs ex n ! j) < item_score (getSalientScored msgs ex n ! i) \<or>
      (item_score (getSalientScored msgs ex n ! i) = item_score (getSalientScored msgs ex n ! j) \<and>
       item_index (getSalientScored msgs ex n ! i) < item_index (getSalientScored msgs ex n ! j))) \<and>
   length (getSalientMessages msgs ex n) \<le> n \<and>
   getSalientMessages msgs ex n = map item_msg (getSalientScored msgs ex n) \<and>
   (\<forall>m \<in> set (getSalientMessages msgs (set_of_list (map msg_id recent)) n). m \<notin> set recent)"
proof -
  let ?cands = "foldl (salientStep ex) [] (enumerate 0 msgs)"
  let ?sel = "getSalientScored msgs ex n"
  note sel = getSalientScored_take [of msgs ex n]
  have each: "\<forall>it \<in> set ?sel.
      item_index it < length msgs \<and> item_msg it = msgs ! item_index it \<and>
      msg_id (item_msg it) \<notin> set ex \<and>
      item_score it = scoreSalience (item_msg it) \<and> 0 < item_score it"
    using getSalientScored_candidates by blast
  have sorted: "sorted_wrt (\<lambda>a b. salienceCompare a b \<le> 0) ?sel"
    unfolding sel
    by (intro sorted_wrt_take sorted_js_sort) (auto simp: salienceCompare_le)
  have dist: "distinct (map item_index ?sel)"
    unfolding sel
    using candidates_distinct [of ex msgs]
    by (simp add: distinct_map_js_sort take_map [symmetric] distinct_take)
  have order: "\<forall>i j. i < j \<and> j < length ?sel \<longrightarrow>
      item_score (?sel ! j) < item_score (?sel ! i) \<or>
      (item_score (?sel ! i) = item_score (?sel ! j) \<and>
       item_index (?sel ! i) < item_index (?sel ! j))"
  proof (intro allI impI)
    fix i j
    assume ij: "i < j \<and> j < length ?sel"
    then have "salienceCompare (?sel ! i) (?sel ! j) \<le> 0"
      using sorted by (simp add: sorted_wrt_iff_nth_less)
    moreover have "item_index (?sel ! i) \<noteq> item_index (?sel ! j)"
      using dist ij by (simp add: distinct_conv_nth)
    ultimately show "item_score (?sel ! j) < item_score (?sel ! i) \<or>
      (item_score (?sel ! i) = item_score (?sel ! j) \<and>
       item_index (?sel ! i) < item_index (?sel ! j))"
      by (auto simp: salienceCompare_le)
  qed
  have len: "length (getSalientMessages msgs ex n) \<le> n"
    by (simp add: getSalientMessages_def sel)
  have outside: "\<forall>m \<in> set (getSalientMessages msgs (set_of_list (map msg_id recent)) n).
      m \<notin> set recent"
  proof
    fix m
    assume "m \<in> set (getSalientMessages msgs (set_of_list (map msg_id recent)) n)"
    then obtain it where it: "it \<in> set (getSalientScored msgs (set_of_list (map msg_id recent)) n)"
      and m: "m = item_msg it"
      by (auto simp: getSalientMessages_def)
    have "msg_id (item_msg it) \<notin> set (set_of_list (map msg_id recent))"
      using getSalientScored_candidates [OF it] by blast
    then have "msg_id (item_msg it) \<notin> msg_id ` set recent"
      by (simp add: set_of_list_def set_of_list_set)
    then show "m \<notin> set recent" using m by blast
  qed
  have mapped: "getSalientMessages msgs ex n = map item_msg ?sel"
    by (simp add: getSalientMessages_def)
  from each order len mapped outside show ?thesis by (intro conjI)
qed

lemma highlights_eval:
  "map item_index (getSalientScored highlights_transcript [''u4''] 3) = [1, 3, 2]"
  "map item_score (getSalientScored highlights_transcript [''u4''] 3) = [4, 4, 3]"
  "map scoreSalience highlights_transcript = [0, 4, 3, 4, 2, 4]"
  by code_simp+

theorem salience_selection_witness:
  "map item_index (getSalientScored highlights_transcript [''u4''] 3) = [1, 3, 2] \<and>
   map item_score (getSalientScored highlights_transcript [''u4''] 3) = [4, 4, 3] \<and>
   map scoreSalience highlights_transcript = [0, 4, 3, 4, 2, 4] \<and>
   length (getSalientMessages highlights_transcript [''u4''] 3) \<le> 3 \<and>
   getSalientMessages highlights_transcript [''u4''] 3 =
     map item_msg (getSalientScored highlights_transcript [''u4''] 3) \<and>
   getSalientMessages highlights_transcript [''u4''] 3 =
     [highlights_transcript ! 1, highlights_transcript ! 3, highlights_transcript ! 2]"
proof -
  have sel: "getSalientMessages highlights_transcript [''u4''] 3 =
     [highlights_transcript ! 1, highlights_transcript ! 3, highlights_transcript ! 2]"
    by code_simp
  show ?thesis
    using highlights_eval sel salience_selection [of highlights_transcript "[''u4'']" 3 "[]"]
    by blast
qed

subsection \<open>Empty transcript\<close>

lemma parseStep_skip:
  "trim (textContent el) = [] \<Longrightarrow> parseStep acc (i, el) = acc"
  by (simp add: parseStep_def Let_def)

lemma parse_all_blank:
  "\<forall>el \<in> set els. trim (textContent el) = [] \<Longrightarrow>
   foldl parseStep acc (enumerate n els) = acc"
  by (induction els arbitrary: n) (simp_all add: parseStep_skip)

text \<open>
  C5. An empty transcript (every message element blank, no non-blank draft) does not
  fail: \<^verbatim>\<open>updateHealthBar\<close> hands the fixed report to the HUD, with health 100, tier
  stable, no reasons and \<open>hasUserMessages\<close> false.
\<close>

theorem empty_transcript_report:
  assumes "\<forall>el \<in> set els. trim (textContent el) = []" and "trim draft = []"
  shows "updateHealthBar st els draft vis =
     Inr (\<lparr>health = Fin 100, tier = Stable, reasons = [], hasUserMessages = False,
           debugStats = \<lparr>dbg_totalChars = vis, dbg_totalTokens = ceilTokens vis,
                         dbg_messageCount = 0\<rparr>\<rparr>,
          st\<lparr>currentHealth := Fin 100, lastTier := Stable\<rparr>)"
  using assms
  by (simp add: updateHealthBar_def parseConversation_def parse_all_blank Let_def renderHUD_def)

theorem empty_transcript_report_witness:
  "trim (textContent \<lparr>testId = ''user-message'', textContent = ''  ''\<rparr>) = [] \<and>
   trim '' '' = [] \<and>
   updateHealthBar state_a [\<lparr>testId = ''user-message'', textContent = ''  ''\<rparr>] '' '' 37 =
     Inr (\<lparr>health = Fin 100, tier = Stable, reasons = [], hasUserMessages = False,
           debugStats = \<lparr>dbg_totalChars = 37, dbg_totalTokens = 10,
                         dbg_messageCount = 0\<rparr>\<rparr>,
          state_a\<lparr>currentHealth := Fin 100, lastTier := Stable\<rparr>)"
proof -
  have b: "\<forall>el \<in> set [\<lparr>testId = ''user-message'', textContent = ''  ''\<rparr>]. trim (textContent el) = []"
    by (simp add: trim_def isWhitespace_def)
  have d: "trim '' '' = []"
    by (simp add: trim_def isWhitespace_def)
  have "\<lceil>(37 :: rat) / 4\<rceil> = 10"
    by (simp add: ceiling_eq_iff)
  then have c: "ceilTokens 37 = 10"
    by (simp add: ceilTokens_def CHARS_PER_TOKEN_def)
  show ?thesis
    using b d empty_transcript_report [OF b d, of state_a 37] by (simp add: c)
qed

subsection \<open>Zero total tokens\<close>

lemma noise_foldl:
  "foldl noiseStep (a, l) msgs =
     (a + sum_list (map tokens (filter (\<lambda>m. role m = Assistant) msgs)),
      l + length (filter (\<lambda>m. role m = Assistant \<and> charCount m > LONG_MESSAGE_THRESHOLD) msgs))"
  by (induction msgs arbitrary: a l) (simp_all add: noiseStep_def)

lemma detectNoise_zero_total:
  assumes S: "S = sum_list (map tokens (filter (\<lambda>m. role m = Assistant) msgs))"
  shows "detectNoise msgs 0 =
     (if list_ex (\<lambda>m. role m = Assistant \<and> charCount m > LONG_MESSAGE_THRESHOLD) msgs
      then 10 else 0) +
     (if 0 < S then 15 else 0)"
proof -
  define L where
    "L = length (filter (\<lambda>m. role m = Assistant \<and> charCount m > LONG_MESSAGE_THRESHOLD) msgs)"
  have f: "foldl noiseStep (0, 0) msgs = (S, L)"
    unfolding S L_def by (simp add: noise_foldl)
  have l: "(0 < L) = list_ex (\<lambda>m. role m = Assistant \<and> charCount m > LONG_MESSAGE_THRESHOLD) msgs"
    unfolding L_def by (simp add: list_ex_iff filter_empty_conv)
  show ?thesis
    unfolding detectNoise_def f l [symmetric]
    by (simp add: js_div_def ASSISTANT_DOMINANCE_RATIO_def)
qed

lemma parseStep_total:
  assumes "acc_cumulativeTokens acc = sum_list (map tokens (acc_messages acc))"
  shows "acc_cumulativeTokens (parseStep acc ie) =
         sum_list (map tokens (acc_messages (parseStep acc ie)))"
  using assms by (cases ie) (simp add: parseStep_def Let_def)

lemma parse_foldl_total:
  "acc_cumulativeTokens acc = sum_list (map tokens (acc_messages acc)) \<Longrightarrow>
   acc_cumulativeTokens (foldl parseStep acc ies) =
   sum_list (map tokens (acc_messages (foldl parseStep acc ies)))"
proof (induction ies arbitrary: acc)
  case Nil
  then show ?case by simp
next
  case (Cons ie ies)
  from Cons.IH [OF parseStep_total [OF Cons.prems]] show ?case by simp
qed

lemma parse_total_is_sum:
  "pr_totalTokens (parseConversation st els dr vis) =
   sum_list (map tokens (pr_messages (parseConversation st els dr vis)))"
proof -
  let ?acc = "foldl parseStep
                  \<lparr>acc_messages = [], acc_cumulativeTokens = 0, acc_messageCounts = Map.empty,
                   acc_migratedLegacyPins = False, acc_totalCharsFromMessages = 0,
                   acc_pins = pinnedMessageIds st\<rparr>
                  (enumerate 0 els)"
  have "acc_cumulativeTokens ?acc = sum_list (map tokens (acc_messages ?acc))"
    by (rule parse_foldl_total) simp
  then show ?thesis
    by (simp add: parseConversation_def Let_def)
qed

lemma assistant_tokens_zero:
  "sum_list (map tokens msgs) = 0 \<Longrightarrow>
   sum_list (map tokens (filter (\<lambda>m. role m = Assistant) msgs)) = 0"
  by (induction msgs) simp_all

lemma instructionStep_returns:
  assumes "idx = [] \<or> Max (set idx) < length msgs"
  shows "\<exists>ip rs. instructionStep msgs T idx c hu = Inr (ip, rs)"
proof (cases idx)
  case Nil
  then show ?thesis by (simp add: instructionStep_def Let_def)
next
  case (Cons i0 rest)
  then have "idx \<noteq> []" and "Max (set idx) < length msgs" using assms by auto
  from instructionStep_last [OF this(1) refl this(2), of T c hu] show ?thesis by blast
qed

lemma calculateHealth_returns:
  assumes "idx = [] \<or> Max (set idx) < length msgs"
  shows "\<exists>r. calculateHealth msgs T idx ov = Inr r"
proof -
  let ?c = "max (foldl (\<lambda>sum msg. sum + charCount msg) 0 (filter (\<lambda>msg. \<not> isDraft msg) msgs))
                (case ov of None \<Rightarrow> 0 | Some v \<Rightarrow> v)"
  let ?hu = "list_ex (\<lambda>msg. role msg = User \<and> \<not> isDraft msg) msgs"
  from instructionStep_returns [OF assms, of T ?c ?hu]
  obtain ip rs where "instructionStep msgs T idx ?c ?hu = Inr (ip, rs)" by blast
  then show ?thesis
    by (simp add: calculateHealth_def Let_def)
qed

text \<open>
  C9. With a total token count of zero no division fails and both ratios behave as
  ratio 0: the comparison of the instruction-distance ratio with 0.5 and of the
  assistant-dominance ratio with 0.7 come out as they do for 0, the instruction-distance
  penalty is 0, the dominance penalty of 15 is not added, and \<^verbatim>\<open>calculateHealth\<close>
  returns a report. The total is that of the snapshot: the sum of the messages' token
  counts, which is what \<^verbatim>\<open>parseConversation\<close> returns (last conjunct).
\<close>

theorem zero_total_tokens_harmless:
  assumes consistent: "T = sum_list (map tokens msgs)" and zero: "T = 0"
  shows
    "(idx \<noteq> [] \<and> Max (set idx) < length msgs \<longrightarrow>
        js_gt (js_div (of_int (int T - int (tokenEnd (msgs ! Max (set idx))))) (of_nat T)) (1 / 2)
          = js_gt (Fin 0) (1 / 2) \<and>
        (\<exists>rs. instructionStep msgs T idx c hu = Inr (Fin 0, rs))) \<and>
     js_gt (js_div (of_nat (fst (foldl noiseStep (0, 0) msgs))) (of_nat T))
           ASSISTANT_DOMINANCE_RATIO
       = js_gt (Fin 0) ASSISTANT_DOMINANCE_RATIO \<and>
     detectNoise msgs T =
       (if list_ex (\<lambda>m. role m = Assistant \<and> charCount m > LONG_MESSAGE_THRESHOLD) msgs
        then 10 else 0) \<and>
     (idx = [] \<or> Max (set idx) < length msgs \<longrightarrow>
        (\<exists>r. calculateHealth msgs T idx ov = Inr r)) \<and>
     pr_totalTokens (parseConversation st els dr vis) =
       sum_list (map tokens (pr_messages (parseConversation st els dr vis)))"
proof -
  let ?S = "sum_list (map tokens (filter (\<lambda>m. role m = Assistant) msgs))"
  have S: "?S = 0"
    using consistent zero assistant_tokens_zero [of msgs] by simp
  have instr: "idx \<noteq> [] \<and> Max (set idx) < length msgs \<longrightarrow>
        js_gt (js_div (of_int (int T - int (tokenEnd (msgs ! Max (set idx))))) (of_nat T)) (1 / 2)
          = js_gt (Fin 0) (1 / 2) \<and>
        (\<exists>rs. instructionStep msgs T idx c hu = Inr (Fin 0, rs))"
  proof
    assume a: "idx \<noteq> [] \<and> Max (set idx) < length msgs"
    have "js_gt (js_div (of_int (int T - int (tokenEnd (msgs ! Max (set idx))))) (of_nat T)) (1 / 2)
          = js_gt (Fin 0) (1 / 2)"
      unfolding zero by (simp add: js_div_def)
    moreover have "\<exists>rs. instructionStep msgs T idx c hu = Inr (Fin 0, rs)"
      unfolding zero using a instructionStep_zero_total [of idx "Max (set idx)" msgs c hu] by blast
    ultimately show "js_gt (js_div (of_int (int T - int (tokenEnd (msgs ! Max (set idx)))))
                           (of_nat T)) (1 / 2) = js_gt (Fin 0) (1 / 2) \<and>
        (\<exists>rs. instructionStep msgs T idx c hu = Inr (Fin 0, rs))"
      by (rule conjI)
  qed
  have f: "fst (foldl noiseStep (0, 0) msgs) = 0"
    using S by (simp only: noise_foldl fst_conv add_0_left)
  have ratio: "js_gt (js_div (of_nat (fst (foldl noiseStep (0, 0) msgs))) (of_nat T))
           ASSISTANT_DOMINANCE_RATIO = js_gt (Fin 0) ASSISTANT_DOMINANCE_RATIO"
    unfolding f zero by (simp add: js_div_def ASSISTANT_DOMINANCE_RATIO_def)
  have noise: "detectNoise msgs T =
       (if list_ex (\<lambda>m. role m = Assistant \<and> charCount m > LONG_MESSAGE_THRESHOLD) msgs
        then 10 else 0)"
    unfolding zero using detectNoise_zero_total [of 0 msgs] S
    by (simp only: add_0_right less_irrefl if_False)
  have returns: "idx = [] \<or> Max (set idx) < length msgs \<longrightarrow>
        (\<exists>r. calculateHealth msgs T idx ov = Inr r)"
    using calculateHealth_returns by blast
  note parse = parse_total_is_sum [of st els dr vis]
  from instr ratio noise returns parse show ?thesis by (intro conjI)
qed

theorem zero_total_tokens_harmless_witness:
  "(0 :: nat) = sum_list (map tokens [sized User 0 0 0, sized Assistant 0 0 0]) \<and>
   [0 :: nat] \<noteq> [] \<and> Max (set [0 :: nat]) < length [sized User 0 0 0, sized Assistant 0 0 0] \<and>
   instructionStep [sized User 0 0 0, sized Assistant 0 0 0] 0 [0] 0 True = Inr (Fin 0, []) \<and>
   detectNoise [sized User 0 0 0, sized Assistant 0 0 0] 0 = 0 \<and>
   (\<exists>r. calculateHealth [sized User 0 0 0, sized Assistant 0 0 0] 0 [0] None = Inr r) \<and>
   (0 :: nat) = sum_list (map tokens []) \<and>
   detectNoise [] 0 = 0 \<and>
   (\<exists>r. calculateHealth [] 0 [] None = Inr r)"
proof -
  let ?quiet = "[sized User 0 0 0, sized Assistant 0 0 0]"
  have c1: "(0 :: nat) = sum_list (map tokens ?quiet)" by (simp add: sized_sel)
  have c2: "(0 :: nat) = sum_list (map tokens [])" by simp
  have i: "[0 :: nat] \<noteq> [] \<and> Max (set [0 :: nat]) < length ?quiet" by simp
  have e1: "\<not> list_ex (\<lambda>m. role m = Assistant \<and> charCount m > LONG_MESSAGE_THRESHOLD) ?quiet"
    by (simp add: sized_sel)
  have r: "\<And>p. \<exists>rs. instructionStep ?quiet 0 [0] 0 True = Inr (p, rs) \<Longrightarrow>
               instructionStep ?quiet 0 [0] 0 True = Inr (p, [])"
    by (auto simp: instructionStep_def sized_sel Let_def split: if_splits)
  note q = zero_total_tokens_harmless [OF c1 refl, of "[0]" 0 True None]
  note e = zero_total_tokens_harmless [OF c2 refl, of "[]" 0 False None]
  have "\<exists>rs. instructionStep ?quiet 0 [0] 0 True = Inr (Fin 0, rs)"
    using q i by blast
  then have s: "instructionStep ?quiet 0 [0] 0 True = Inr (Fin 0, [])" by (rule r)
  have nq: "detectNoise ?quiet 0 = 0" using q e1 by simp
  have rq: "\<exists>r. calculateHealth ?quiet 0 [0] None = Inr r" using q i by blast
  have ne: "detectNoise [] 0 = 0" using e by simp
  have re: "\<exists>r. calculateHealth [] 0 [] None = Inr r" using e by blast
  from c1 i s nq rq c2 ne re show ?thesis by (intro conjI) simp_all
qed

subsection \<open>Length penalty\<close>

lemma penalties_example:
  "tokenPenalty 16000 = 10" "charPenalty 250000 = 1425 / 28" "messagePenalty 70 = 10"
  by (simp_all add: tokenPenalty_def charPenalty_def messagePenalty_def
      interpolatePenalty_def CHAR_PENALTY_POINTS_def
      TOKEN_HIGH_def TOKEN_MEDIUM_def TOKEN_LOW_def MESSAGE_HIGH_def MESSAGE_MEDIUM_def
      MESSAGE_LOW_def)

lemma formatCount_250000: "formatCount 250000 = ''250k''"
proof -
  have f: "\<lfloor>(501 :: rat) / 2\<rfloor> = 250"
    by (simp add: floor_eq_iff)
  have s: "showNat 250 = ''250''"
    by code_simp
  show ?thesis by (simp add: formatCount_def f s)
qed

lemma foldl_charCount:
  "foldl (\<lambda>sum msg. sum + charCount msg) a xs = a + sum_list (map charCount xs)"
  by (induction xs arbitrary: a) simp_all

lemma long_transcript_counts:
  "filter (\<lambda>msg. \<not> isDraft msg) long_transcript = long_transcript"
  "length long_transcript = 70"
  "foldl (\<lambda>sum msg. sum + charCount msg) 0 long_transcript = 64000"
  "list_ex (\<lambda>msg. role msg = User \<and> \<not> isDraft msg) long_transcript"
  "tokenEnd (long_transcript ! 69) = 16000"
      apply (simp add: long_transcript_def sized_sel filter_map o_def)
     apply (simp add: long_transcript_def)
    apply (simp add: long_transcript_def foldl_charCount sized_sel o_def sum_list_triv)
   apply (simp add: long_transcript_def sized_sel)
  apply (simp add: long_transcript_def nth_append sized_sel)
  done

lemma long_transcript_noise: "detectNoise long_transcript 16000 = 0"
proof -
  have "filter (\<lambda>m. role m = Assistant) long_transcript = []"
    by (simp add: long_transcript_def sized_sel filter_map o_def)
  moreover have "filter (\<lambda>m. role m = Assistant \<and> charCount m > LONG_MESSAGE_THRESHOLD)
                   long_transcript = []"
    by (simp add: long_transcript_def sized_sel filter_map o_def)
  ultimately have "foldl noiseStep (0, 0) long_transcript = (0, 0)"
    by (simp only: noise_foldl) simp
  then show ?thesis
    by (simp add: detectNoise_def js_div_def ASSISTANT_DOMINANCE_RATIO_def)
qed

lemma long_transcript_instruction:
  "instructionStep long_transcript 16000 [69] 250000 True = Inr (Fin 0, [])"
  by (simp add: instructionStep_def long_transcript_counts js_div_def)

text \<open>
  C3, as the claim states it, fails in its example: with 16000 tokens, 250000 effective
  characters and 70 messages the length penalty is 1425/28 (about 50.9, which rounds to
  51), more than 1 away from 52.
\<close>

theorem length_penalty_example_counterexample:
  "lengthPenalty 16000 250000 70 = 1425 / 28 \<and>
   \<lfloor>lengthPenalty 16000 250000 70 + 1 / 2\<rfloor> = 51 \<and>
   \<not> (\<bar>lengthPenalty 16000 250000 70 - 52\<bar> \<le> 1)"
  by (simp add: lengthPenalty_def penalties_example floor_eq_iff)

text \<open>
  C3, amended. The length penalty is the maximum of the token, character and message
  penalties (not their sum); a sub-penalty contributes its reason exactly when it is
  nonzero and equal to that maximum, in the order token, character, message; the report
  of \<^verbatim>\<open>calculateHealth\<close> subtracts that maximum and lists those reasons between the
  instruction reasons and the noise reason. For 16000 tokens, 250000 effective
  characters and 70 messages the length penalty is 1425/28 (about 50.9) and the only
  length reason is the character one.
\<close>

theorem length_penalty_is_max:
  "lengthPenalty T c n = Max {tokenPenalty T, charPenalty c, messagePenalty n} \<and>
   lengthReasons T c n =
     (if tokenPenalty T = lengthPenalty T c n \<and> 0 < tokenPenalty T then [tokenReason T] else []) @
     (if charPenalty c = lengthPenalty T c n \<and> 0 < charPenalty c then [charReason c] else []) @
     (if messagePenalty n = lengthPenalty T c n \<and> 0 < messagePenalty n
      then [messageReason n] else []) \<and>
   (calculateHealth msgs T idx ov = Inr r \<and>
    n = length (filter (\<lambda>msg. \<not> isDraft msg) msgs) \<and>
    c = max (foldl (\<lambda>sum msg. sum + charCount msg) 0 (filter (\<lambda>msg. \<not> isDraft msg) msgs))
            (case ov of None \<Rightarrow> 0 | Some v \<Rightarrow> v)
    \<longrightarrow> (\<exists>ip rs.
          instructionStep msgs T idx c (list_ex (\<lambda>msg. role msg = User \<and> \<not> isDraft msg) msgs)
            = Inr (ip, rs) \<and>
          health r = js_round (js_max 0 (js_min 100
                       (js_minus (js_minus (js_rminus 100 ip) (lengthPenalty T c n))
                                 (of_nat (detectNoise msgs T))))) \<and>
          reasons r = rs @ lengthReasons T c n @
                      (if detectNoise msgs T > 0 then [''Long assistant responses detected'']
                       else []))) \<and>
   lengthPenalty 16000 250000 70 = 1425 / 28 \<and>
   lengthPenalty 16000 250000 70 <
     tokenPenalty 16000 + charPenalty 250000 + messagePenalty 70 \<and>
   lengthReasons 16000 250000 70 = [''Conversation length: 250k chars'']"
proof -
  have mx: "lengthPenalty T c n = Max {tokenPenalty T, charPenalty c, messagePenalty n}"
    by (simp add: lengthPenalty_def max.assoc)
  have rs: "lengthReasons T c n =
     (if tokenPenalty T = lengthPenalty T c n \<and> 0 < tokenPenalty T then [tokenReason T] else []) @
     (if charPenalty c = lengthPenalty T c n \<and> 0 < charPenalty c then [charReason c] else []) @
     (if messagePenalty n = lengthPenalty T c n \<and> 0 < messagePenalty n
      then [messageReason n] else [])"
    by (simp add: lengthReasons_def Let_def eq_commute)
  have run: "calculateHealth msgs T idx ov = Inr r \<and>
    n = length (filter (\<lambda>msg. \<not> isDraft msg) msgs) \<and>
    c = max (foldl (\<lambda>sum msg. sum + charCount msg) 0 (filter (\<lambda>msg. \<not> isDraft msg) msgs))
            (case ov of None \<Rightarrow> 0 | Some v \<Rightarrow> v)
    \<longrightarrow> (\<exists>ip rs.
          instructionStep msgs T idx c (list_ex (\<lambda>msg. role msg = User \<and> \<not> isDraft msg) msgs)
            = Inr (ip, rs) \<and>
          health r = js_round (js_max 0 (js_min 100
                       (js_minus (js_minus (js_rminus 100 ip) (lengthPenalty T c n))
                                 (of_nat (detectNoise msgs T))))) \<and>
          reasons r = rs @ lengthReasons T c n @
                      (if detectNoise msgs T > 0 then [''Long assistant responses detected'']
                       else []))"
    by (auto simp: calculateHealth_def Let_def split: sum.splits prod.splits)
  have ex1: "lengthPenalty 16000 250000 70 = 1425 / 28"
    by (simp add: lengthPenalty_def penalties_example)
  have ex2: "lengthPenalty 16000 250000 70 <
     tokenPenalty 16000 + charPenalty 250000 + messagePenalty 70"
    by (simp add: ex1 penalties_example)
  have ex3: "lengthReasons 16000 250000 70 = [''Conversation length: 250k chars'']"
    by (simp add: lengthReasons_def ex1 penalties_example charReason_def formatCount_250000)
  from mx rs run ex1 ex2 ex3 show ?thesis by (intro conjI)
qed

theorem length_penalty_is_max_witness:
  "\<exists>r. calculateHealth long_transcript 16000 [69] (Some 250000) = Inr r \<and>
       length (filter (\<lambda>msg. \<not> isDraft msg) long_transcript) = 70 \<and>
       reasons r = [''Conversation length: 250k chars''] \<and>
       health r = Fin 49 \<and> tier r = Unreliable"
proof -
  have n: "70 = length (filter (\<lambda>msg. \<not> isDraft msg) long_transcript)"
    by (simp add: long_transcript_counts)
  have c: "250000 = max (foldl (\<lambda>sum msg. sum + charCount msg) 0
                           (filter (\<lambda>msg. \<not> isDraft msg) long_transcript))
                        (case Some 250000 of None \<Rightarrow> 0 | Some v \<Rightarrow> v)"
    by (simp add: long_transcript_counts)
  obtain r where r: "calculateHealth long_transcript 16000 [69] (Some 250000) = Inr r"
    by (simp add: calculateHealth_def Let_def long_transcript_counts long_transcript_instruction)
  have t: "tier r = Unreliable"
    using r
    by (auto simp: calculateHealth_def Let_def long_transcript_counts long_transcript_instruction
        long_transcript_noise tierOf_def lengthPenalty_def penalties_example)
  from length_penalty_is_max [of 16000 250000 70 long_transcript "[69]" "Some 250000" r] r n c
  obtain ip rs where
    step: "instructionStep long_transcript 16000 [69] 250000
             (list_ex (\<lambda>msg. role msg = User \<and> \<not> isDraft msg) long_transcript) = Inr (ip, rs)"
    and h: "health r = js_round (js_max 0 (js_min 100
              (js_minus (js_minus (js_rminus 100 ip) (lengthPenalty 16000 250000 70))
                        (of_nat (detectNoise long_transcript 16000)))))"
    and rsn: "reasons r = rs @ lengthReasons 16000 250000 70 @
              (if detectNoise long_transcript 16000 > 0
               then [''Long assistant responses detected''] else [])"
    and lr: "lengthReasons 16000 250000 70 = [''Conversation length: 250k chars'']"
    and lp: "lengthPenalty 16000 250000 70 = 1425 / 28"
    by blast
  from step have ip: "ip = Fin 0" and rs: "rs = []"
    by (simp_all add: long_transcript_counts long_transcript_instruction)
  have "reasons r = [''Conversation length: 250k chars'']"
    using rsn by (simp add: rs lr long_transcript_noise)
  moreover have "health r = Fin 49"
    using h by (simp add: ip lp long_transcript_noise floor_eq_iff)
  ultimately show ?thesis using r n t by auto
qed

end
